theory Spec2Isabelle
  imports Main "HOL-Library.Char_ord" "HOL-Library.List_Lexorder"
begin

section \<open>Qt containers and values used by the plugin core\<close>

text \<open>
  A \<open>QMap\<close> keeps its entries ordered by key and holds one value per key. It is
  modelled as an association list whose insertion keeps that order; lookups go through
  \<open>map_of\<close>. \<open>QString\<close> is \<open>string\<close>, compared lexicographically.
\<close>

type_synonym ('k, 'v) QMap = "('k \<times> 'v) list"

definition qmap_contains :: "('k, 'v) QMap \<Rightarrow> 'k \<Rightarrow> bool" where
  "qmap_contains m k = (map_of m k \<noteq> None)"

fun qmap_insert :: "'k::linorder \<Rightarrow> 'v \<Rightarrow> ('k, 'v) QMap \<Rightarrow> ('k, 'v) QMap" where
  "qmap_insert k v [] = [(k, v)]"
| "qmap_insert k v ((k', v') # m) =
     (if k < k' then (k, v) # (k', v') # m
      else if k = k' then (k, v) # m
      else (k', v') # qmap_insert k v m)"

definition qmap_remove :: "'k \<Rightarrow> ('k, 'v) QMap \<Rightarrow> ('k, 'v) QMap" where
  "qmap_remove k m = filter (\<lambda>e. fst e \<noteq> k) m"

definition qmap_keys :: "('k, 'v) QMap \<Rightarrow> 'k list" where
  "qmap_keys m = map fst m"

text \<open>
  JSON values as \<open>QJsonValue\<close> has them. A \<open>QJsonObject\<close> is the list of its members;
  a \<open>QJsonDocument\<close> is what \<open>QJsonDocument::fromJson\<close> hands back for a text: the null
  document when the text does not parse, else an array or an object. The numeric payload
  of a double plays no role in the plugin core and is kept as an integer.
\<close>

datatype QJsonValue =
    JNull
  | JBool bool
  | JDouble int
  | JString string
  | JArray "QJsonValue list"
  | JObject "(string \<times> QJsonValue) list"
  | JUndefined

type_synonym QJsonObject = "(string \<times> QJsonValue) list"

datatype QJsonDocument = NullDocument | ArrayDocument "QJsonValue list" | ObjectDocument QJsonObject

definition json_contains :: "QJsonObject \<Rightarrow> string \<Rightarrow> bool" where
  "json_contains obj k = (map_of obj k \<noteq> None)"

definition json_value :: "QJsonObject \<Rightarrow> string \<Rightarrow> QJsonValue" where
  "json_value obj k = (case map_of obj k of None \<Rightarrow> JUndefined | Some v \<Rightarrow> v)"

fun toString :: "QJsonValue \<Rightarrow> string \<Rightarrow> string" where
  "toString (JString s) defaultValue = s"
| "toString _ defaultValue = defaultValue"

fun toArray :: "QJsonValue \<Rightarrow> QJsonValue list" where
  "toArray (JArray vs) = vs"
| "toArray _ = []"

subsection \<open>QVersionNumber\<close>

text \<open>
  \<open>QVersionNumber::fromString\<close> reads decimal segments separated by periods and stops at
  the first position where no segment can be read, or where a segment exceeds the largest
  \<open>int\<close>. \<open>QVersionNumber::compare\<close> compares segment by segment; when one number is a
  prefix of the other, the longer one is the greater.
\<close>

fun indexOf :: "'a \<Rightarrow> 'a list \<Rightarrow> nat option" where
  "indexOf x [] = None"
| "indexOf x (y # ys) = (if x = y then Some 0 else map_option Suc (indexOf x ys))"

definition digitValue :: "char \<Rightarrow> nat option" where
  "digitValue c = indexOf c ''0123456789''"

definition isDigit :: "char \<Rightarrow> bool" where
  "isDigit c = (digitValue c \<noteq> None)"

definition decimal :: "string \<Rightarrow> nat" where
  "decimal ds = foldl (\<lambda>acc c. 10 * acc + (case digitValue c of Some d \<Rightarrow> d | None \<Rightarrow> 0)) 0 ds"

text \<open>
  \<open>QVersionNumber::fromString\<close> is Qt code. It reads each segment with \<open>qstrtoull\<close> in base
  ten: white space before the number is skipped, a \<open>+\<close> sign is accepted and a \<open>-\<close> sign is
  not, and at least one digit must follow. The parse ends at the first segment that cannot
  be read or is above \<open>INT_MAX\<close>; a segment is followed by another one only across a period.
\<close>

definition isSpace :: "char \<Rightarrow> bool" where
  "isSpace c = (c \<in> set [CHR 0x20, CHR 0x09, CHR 0x0A, CHR 0x0B, CHR 0x0C, CHR 0x0D])"

definition skipSign :: "string \<Rightarrow> string" where
  "skipSign s = (case s of [] \<Rightarrow> [] | c # s' \<Rightarrow> if c = CHR ''+'' then s' else s)"

function fromString :: "string \<Rightarrow> nat list" where
  "fromString s =
     (let number = skipSign (dropWhile isSpace s);
          ds = takeWhile isDigit number; rest = dropWhile isDigit number in
      if ds = [] \<or> decimal ds > 2147483647 then []
      else decimal ds #
        (case rest of
           [] \<Rightarrow> []
         | c # rest' \<Rightarrow> if c = CHR ''.'' then fromString rest' else []))"
  by pat_completeness auto
termination
proof (relation "measure length", goal_cases)
  case 1
  show ?case by simp
next
  case (2 s number ds rest c rest')
  have "length (skipSign (dropWhile isSpace s)) \<le> length (dropWhile isSpace s)"
    by (simp add: skipSign_def split: list.splits)
  moreover have "length (dropWhile isSpace s) \<le> length s"
    by (rule length_dropWhile_le)
  moreover have "length (dropWhile isDigit number) \<le> length number"
    by (rule length_dropWhile_le)
  moreover from 2 have "Suc (length rest') = length (dropWhile isDigit number)"
    by (metis length_Cons)
  ultimately show ?case using 2 by simp
qed

fun compare :: "nat list \<Rightarrow> nat list \<Rightarrow> int" where
  "compare [] [] = 0"
| "compare (x # xs) [] = (if x \<noteq> 0 then int x else 1)"
| "compare [] (y # ys) = (if y \<noteq> 0 then - int y else - 1)"
| "compare (x # xs) (y # ys) = (if x \<noteq> y then int x - int y else compare xs ys)"

section \<open>PluginMetadata\<close>

record PluginMetadata =
  m_metadata :: QJsonObject
  m_isValid :: bool

definition PluginMetadata_default :: PluginMetadata where
  "PluginMetadata_default = \<lparr> m_metadata = [], m_isValid = False \<rparr>"

definition requiredFieldsPresent :: "QJsonObject \<Rightarrow> bool" where
  "requiredFieldsPresent obj =
     (obj \<noteq> [] \<and> json_contains obj ''id'' \<and> json_contains obj ''name'' \<and>
      json_contains obj ''version'' \<and> json_contains obj ''vendor'')"

text \<open>
  \<open>loadFromString\<close> starts from the document that \<open>QJsonDocument::fromJson\<close> produced
  for the text. It returns its boolean result together with the updated object.
\<close>

definition loadFromString :: "PluginMetadata \<Rightarrow> QJsonDocument \<Rightarrow> bool \<times> PluginMetadata" where
  "loadFromString md doc =
     (case doc of
        ObjectDocument obj \<Rightarrow>
          (requiredFieldsPresent obj,
           \<lparr> m_metadata = obj, m_isValid = requiredFieldsPresent obj \<rparr>)
      | _ \<Rightarrow> (False, md\<lparr> m_isValid := False \<rparr>))"

text \<open>A file of the metadata directory: it cannot be opened, or it holds a text.\<close>

datatype metadata_file = Unreadable | Content QJsonDocument

definition loadFromFile :: "PluginMetadata \<Rightarrow> metadata_file \<Rightarrow> bool \<times> PluginMetadata" where
  "loadFromFile md f =
     (case f of Unreadable \<Rightarrow> (False, md) | Content doc \<Rightarrow> loadFromString md doc)"

definition isValid :: "PluginMetadata \<Rightarrow> bool" where
  "isValid md = m_isValid md"

definition getPluginId :: "PluginMetadata \<Rightarrow> string" where
  "getPluginId md = toString (json_value (m_metadata md) ''id'') []"

definition getPluginDependencies :: "PluginMetadata \<Rightarrow> string list" where
  "getPluginDependencies md =
     map (\<lambda>dep. toString dep []) (toArray (json_value (m_metadata md) ''dependencies''))"

definition getMinFrameworkVersion :: "PluginMetadata \<Rightarrow> string" where
  "getMinFrameworkVersion md = toString (json_value (m_metadata md) ''minFrameworkVersion'') ''1.0.0''"

definition getMinFrameworkVersionNumber :: "PluginMetadata \<Rightarrow> nat list" where
  "getMinFrameworkVersionNumber md = fromString (getMinFrameworkVersion md)"

definition isCompatibleWithFramework :: "PluginMetadata \<Rightarrow> string \<Rightarrow> bool" where
  "isCompatibleWithFramework md frameworkVersion =
     (if \<not> m_isValid md then False
      else compare (fromString frameworkVersion) (getMinFrameworkVersionNumber md) \<ge> 0)"

definition dependsOn :: "PluginMetadata \<Rightarrow> string \<Rightarrow> bool" where
  "dependsOn md pluginId = (pluginId \<in> set (getPluginDependencies md))"

section \<open>The plugin contract, the loader and the message bus\<close>

datatype PluginState = NotLoaded | Loaded | Initialized | Active | Inactive | Failed

datatype hook = Initialize | Activate | Deactivate | Shutdown

datatype exception = PluginException string | StdException string | UnknownException

datatype hook_outcome = Returns bool | Throws exception

text \<open>
  An \<open>IPlugin*\<close> is a handle of the instance; a \<open>QPluginLoader*\<close> is named by the library
  file it was created for. What \<open>QPluginLoader\<close> finds in a library file: loading fails
  with a message, loading works but there is no root instance, the root instance is not
  an \<open>IPlugin\<close>, or it is one.
\<close>

type_synonym IPlugin = nat
type_synonym QPluginLoader = string
type_synonym MessageHandlerFunc = nat

datatype library =
    LoadFails string
  | NoInstance string
  | ForeignInstance
  | PluginInstance IPlugin

datatype signal =
    pluginLoaded string
  | pluginUnloaded string
  | pluginInitialized string
  | pluginActivated string
  | pluginDeactivated string
  | pluginFailed string string

text \<open>
  What the manager does to the outside, in order: signals emitted, hooks invoked (with the
  outcome and the plugin states at the moment of the call), loader calls and purges of the
  message bus. Log lines are not recorded.
\<close>

datatype event =
    Emit signal
  | HookCall string hook hook_outcome "string \<Rightarrow> PluginState"
  | LoaderLoad QPluginLoader
  | LoaderUnload QPluginLoader bool
  | UnregisterAllHandlers string

text \<open>
  The surroundings of the manager: the listing of the metadata directory for
  \<open>*.json\<close>, the files of the metadata directory and the library files of the plugin
  directory by file name, the behaviour of every hook and of \<open>QPluginLoader::unload\<close>,
  which may depend on everything that has happened so far.
\<close>

record environment =
  entryList :: "string list"
  metadataFiles :: "string \<Rightarrow> metadata_file option"
  libraries :: "string \<Rightarrow> library option"
  hooks :: "event list \<Rightarrow> IPlugin \<Rightarrow> hook \<Rightarrow> hook_outcome"
  unloads :: "event list \<Rightarrow> QPluginLoader \<Rightarrow> bool"

subsection \<open>PluginCommunication\<close>

record PluginCommunication =
  m_handlers :: "string \<Rightarrow> MessageHandlerFunc option"
  bus_initialized :: bool

text \<open>\<open>QString::split\<close> on a separator character, empty parts kept.\<close>

fun split :: "char \<Rightarrow> string \<Rightarrow> string list" where
  "split sep [] = [[]]"
| "split sep (c # cs) =
     (if c = sep then [] # split sep cs
      else (case split sep cs of [] \<Rightarrow> [[c]] | p # ps \<Rightarrow> (c # p) # ps))"

definition handlerKey :: "string \<Rightarrow> string \<Rightarrow> string" where
  "handlerKey pluginId messageType = pluginId @ '':'' @ messageType"

definition registerMessageHandler ::
  "string \<Rightarrow> string \<Rightarrow> MessageHandlerFunc \<Rightarrow> PluginCommunication \<Rightarrow> bool \<times> PluginCommunication" where
  "registerMessageHandler pluginId messageType handler c =
     (if \<not> bus_initialized c then (False, c)
      else if m_handlers c (handlerKey pluginId messageType) \<noteq> None then (False, c)
      else (True, c\<lparr> m_handlers := (m_handlers c)(handlerKey pluginId messageType \<mapsto> handler) \<rparr>))"

definition unregisterMessageHandler ::
  "string \<Rightarrow> string \<Rightarrow> PluginCommunication \<Rightarrow> bool \<times> PluginCommunication" where
  "unregisterMessageHandler pluginId messageType c =
     (if \<not> bus_initialized c then (False, c)
      else if m_handlers c (handlerKey pluginId messageType) = None then (False, c)
      else (True, c\<lparr> m_handlers := (m_handlers c)(handlerKey pluginId messageType := None) \<rparr>))"

definition ownedBy :: "string \<Rightarrow> string \<Rightarrow> bool" where
  "ownedBy pluginId key =
     (let parts = split (CHR '':'') key in length parts = 2 \<and> parts ! 0 = pluginId)"

definition unregisterAllMessageHandlers ::
  "string \<Rightarrow> PluginCommunication \<Rightarrow> bool \<times> PluginCommunication" where
  "unregisterAllMessageHandlers pluginId c =
     (if \<not> bus_initialized c then (False, c)
      else (True, c\<lparr> m_handlers := (\<lambda>key. if ownedBy pluginId key then None else m_handlers c key) \<rparr>))"

section \<open>PluginManager\<close>

text \<open>
  The registry. \<open>m_pluginStates\<close> is only ever read at a key, with \<open>NotLoaded\<close> for a key
  that is absent, so it is a total function. The directories are part of the
  environment.
\<close>

record PluginManager =
  m_pluginLoaders :: "string \<Rightarrow> QPluginLoader option"
  m_plugins :: "(string, IPlugin) QMap"
  m_pluginMetadata :: "(string, PluginMetadata) QMap"
  m_pluginStates :: "string \<Rightarrow> PluginState"
  m_initialized :: bool
  communication :: PluginCommunication
  trace :: "event list"

definition m_frameworkVersion :: string where
  "m_frameworkVersion = ''1.0.0''"

definition emit :: "signal \<Rightarrow> PluginManager \<Rightarrow> PluginManager" where
  "emit sig s = s\<lparr> trace := trace s @ [Emit sig] \<rparr>"

definition setState :: "string \<Rightarrow> PluginState \<Rightarrow> PluginManager \<Rightarrow> PluginManager" where
  "setState pluginId st s = s\<lparr> m_pluginStates := (m_pluginStates s)(pluginId := st) \<rparr>"

definition failPlugin :: "string \<Rightarrow> string \<Rightarrow> PluginManager \<Rightarrow> PluginManager" where
  "failPlugin pluginId message s = emit (pluginFailed pluginId message) (setState pluginId Failed s)"

definition isPluginLoaded :: "PluginManager \<Rightarrow> string \<Rightarrow> bool" where
  "isPluginLoaded s pluginId = (if \<not> m_initialized s then False else qmap_contains (m_plugins s) pluginId)"

definition isPluginActive :: "PluginManager \<Rightarrow> string \<Rightarrow> bool" where
  "isPluginActive s pluginId = (if \<not> m_initialized s then False else m_pluginStates s pluginId = Active)"

definition getPluginState :: "PluginManager \<Rightarrow> string \<Rightarrow> PluginState" where
  "getPluginState s pluginId = (if \<not> m_initialized s then NotLoaded else m_pluginStates s pluginId)"

text \<open>
  \<open>m_pluginMetadata[pluginId]\<close>: the entry at the key; a key that is absent gets a
  default-constructed (invalid) entry first.
\<close>

definition metadataRef :: "string \<Rightarrow> PluginManager \<Rightarrow> PluginMetadata \<times> PluginManager" where
  "metadataRef pluginId s =
     (case map_of (m_pluginMetadata s) pluginId of
        Some metadata \<Rightarrow> (metadata, s)
      | None \<Rightarrow> (PluginMetadata_default,
          s\<lparr> m_pluginMetadata := qmap_insert pluginId PluginMetadata_default (m_pluginMetadata s) \<rparr>))"

definition loadPluginMetadata :: "environment \<Rightarrow> string \<Rightarrow> PluginManager \<Rightarrow> bool \<times> PluginManager" where
  "loadPluginMetadata env pluginId s =
     (case metadataFiles env (pluginId @ ''.json'') of
        None \<Rightarrow> (False, s)
      | Some f \<Rightarrow>
          (let (ok, metadata) = loadFromFile PluginMetadata_default f in
           if \<not> ok then (False, s)
           else if \<not> isValid metadata then (False, s)
           else if getPluginId metadata \<noteq> pluginId then (False, s)
           else (True, s\<lparr> m_pluginMetadata := qmap_insert pluginId metadata (m_pluginMetadata s) \<rparr>)))"

fun checkDependencies :: "environment \<Rightarrow> string list \<Rightarrow> PluginManager \<Rightarrow> bool \<times> PluginManager" where
  "checkDependencies env [] s = (True, s)"
| "checkDependencies env (depId # deps) s =
     (let (ok, s1) = (if \<not> qmap_contains (m_pluginMetadata s) depId
                      then loadPluginMetadata env depId s else (True, s)) in
      if \<not> ok then (False, s1)
      else
        let (depMetadata, s2) = metadataRef depId s1 in
        if \<not> isCompatibleWithFramework depMetadata m_frameworkVersion then (False, s2)
        else checkDependencies env deps s2)"

definition checkPluginDependencies :: "environment \<Rightarrow> string \<Rightarrow> PluginManager \<Rightarrow> bool \<times> PluginManager" where
  "checkPluginDependencies env pluginId s =
     (if \<not> qmap_contains (m_pluginMetadata s) pluginId then (False, s)
      else
        let (metadata, s1) = metadataRef pluginId s in
        checkDependencies env (getPluginDependencies metadata) s1)"

definition getDependentPlugins :: "PluginManager \<Rightarrow> string \<Rightarrow> string list" where
  "getDependentPlugins s pluginId =
     map fst (filter (\<lambda>e. fst e \<noteq> pluginId \<and> dependsOn (snd e) pluginId) (m_pluginMetadata s))"

subsection \<open>scanForPlugins\<close>

text \<open>\<open>QFileInfo::baseName\<close>: the file name up to its first period.\<close>

definition baseName :: "string \<Rightarrow> string" where
  "baseName f = takeWhile (\<lambda>c. c \<noteq> CHR ''.'') f"

fun scanFiles :: "environment \<Rightarrow> string list \<Rightarrow> PluginManager \<Rightarrow> string list \<times> PluginManager" where
  "scanFiles env [] s = ([], s)"
| "scanFiles env (metadataFile # fs) s =
     (let pluginId = baseName metadataFile;
          (ok, s1) = loadPluginMetadata env pluginId s;
          (pluginIds, s2) = scanFiles env fs s1
      in (if ok then pluginId # pluginIds else pluginIds, s2))"

definition scanForPlugins :: "environment \<Rightarrow> PluginManager \<Rightarrow> string list \<times> PluginManager" where
  "scanForPlugins env s = (if \<not> m_initialized s then ([], s) else scanFiles env (entryList env) s)"

subsection \<open>loadPlugin\<close>

definition resolvePluginPath :: "environment \<Rightarrow> string \<Rightarrow> string" where
  "resolvePluginPath env pluginId =
     (if libraries env (pluginId @ ''.dll'') \<noteq> None then pluginId @ ''.dll''
      else if libraries env (''lib'' @ pluginId @ ''.so'') \<noteq> None then ''lib'' @ pluginId @ ''.so''
      else ''lib'' @ pluginId @ ''.dylib'')"

definition loaderUnload :: "environment \<Rightarrow> QPluginLoader \<Rightarrow> PluginManager \<Rightarrow> bool \<times> PluginManager" where
  "loaderUnload env loader s =
     (let ok = unloads env (trace s) loader in (ok, s\<lparr> trace := trace s @ [LoaderUnload loader ok] \<rparr>))"

definition loadLibrary :: "environment \<Rightarrow> string \<Rightarrow> string \<Rightarrow> PluginManager \<Rightarrow> bool \<times> PluginManager" where
  "loadLibrary env pluginId pluginPath s =
     (case libraries env pluginPath of
        None \<Rightarrow> (False, failPlugin pluginId ''Plugin library not found'' s)
      | Some lib \<Rightarrow>
          (let s1 = s\<lparr> trace := trace s @ [LoaderLoad pluginPath] \<rparr> in
           case lib of
             LoadFails err \<Rightarrow> (False, failPlugin pluginId (''Failed to load: '' @ err) s1)
           | NoInstance err \<Rightarrow>
               (False, failPlugin pluginId (''Failed to get instance: '' @ err)
                         (snd (loaderUnload env pluginPath s1)))
           | ForeignInstance \<Rightarrow>
               (False, failPlugin pluginId ''Does not implement IPlugin interface''
                         (snd (loaderUnload env pluginPath s1)))
           | PluginInstance plugin \<Rightarrow>
               (True, emit (pluginLoaded pluginId)
                  (setState pluginId Loaded
                     (s1\<lparr> m_pluginLoaders := (m_pluginLoaders s1)(pluginId \<mapsto> pluginPath),
                          m_plugins := qmap_insert pluginId plugin (m_plugins s1) \<rparr>)))))"

definition loadPlugin :: "environment \<Rightarrow> string \<Rightarrow> PluginManager \<Rightarrow> bool \<times> PluginManager" where
  "loadPlugin env pluginId s =
     (if \<not> m_initialized s then (False, s)
      else if isPluginLoaded s pluginId then (True, s)
      else
        let (found, s0) = (if \<not> qmap_contains (m_pluginMetadata s) pluginId
                           then loadPluginMetadata env pluginId s else (True, s)) in
        if \<not> found then (False, s0)
        else
          let (metadata, s1) = metadataRef pluginId s0 in
          if \<not> isCompatibleWithFramework metadata m_frameworkVersion
          then (False, failPlugin pluginId (''Incompatible with framework version '' @ m_frameworkVersion) s1)
          else
            let (satisfied, s2) = checkPluginDependencies env pluginId s1 in
            if \<not> satisfied then (False, failPlugin pluginId ''Unsatisfied dependencies'' s2)
            else loadLibrary env pluginId (resolvePluginPath env (getPluginId metadata)) s2)"

subsection \<open>Hooks\<close>

text \<open>
  A hook is invoked on \<open>m_plugins[pluginId]\<close>. The operations below look the instance up
  after \<open>isPluginLoaded\<close> has held; were the key absent, the call would go through a null
  pointer, and the operation has no result (\<open>None\<close>).
\<close>

definition invokeHook ::
  "environment \<Rightarrow> string \<Rightarrow> IPlugin \<Rightarrow> hook \<Rightarrow> PluginManager \<Rightarrow> hook_outcome \<times> PluginManager" where
  "invokeHook env pluginId plugin h s =
     (let out = hooks env (trace s) plugin h in
      (out, s\<lparr> trace := trace s @ [HookCall pluginId h out (m_pluginStates s)] \<rparr>))"

fun initializeFailure :: "hook_outcome \<Rightarrow> string" where
  "initializeFailure (Returns b) = ''Failed to initialize''"
| "initializeFailure (Throws (PluginException msg)) = ''Exception during initialization: '' @ msg"
| "initializeFailure (Throws (StdException msg)) = ''Exception during initialization: '' @ msg"
| "initializeFailure (Throws UnknownException) = ''Unknown exception during initialization''"

fun activateFailure :: "hook_outcome \<Rightarrow> string" where
  "activateFailure (Returns b) = ''Failed to activate''"
| "activateFailure (Throws (PluginException msg)) = ''Exception during activation: '' @ msg"
| "activateFailure (Throws (StdException msg)) = ''Exception during activation: '' @ msg"
| "activateFailure (Throws UnknownException) = ''Unknown exception during activation''"

definition initializeHook :: "environment \<Rightarrow> string \<Rightarrow> PluginManager \<Rightarrow> (bool \<times> PluginManager) option" where
  "initializeHook env pluginId s =
     (case map_of (m_plugins s) pluginId of
        None \<Rightarrow> None
      | Some plugin \<Rightarrow>
          (let (out, s1) = invokeHook env pluginId plugin Initialize s in
           if out = Returns True
           then Some (True, emit (pluginInitialized pluginId) (setState pluginId Initialized s1))
           else Some (False, failPlugin pluginId (initializeFailure out) s1)))"

definition activateHook :: "environment \<Rightarrow> string \<Rightarrow> PluginManager \<Rightarrow> (bool \<times> PluginManager) option" where
  "activateHook env pluginId s =
     (case map_of (m_plugins s) pluginId of
        None \<Rightarrow> None
      | Some plugin \<Rightarrow>
          (let (out, s1) = invokeHook env pluginId plugin Activate s in
           if out = Returns True
           then Some (True, emit (pluginActivated pluginId) (setState pluginId Active s1))
           else Some (False, failPlugin pluginId (activateFailure out) s1)))"

definition deactivateHook :: "environment \<Rightarrow> string \<Rightarrow> PluginManager \<Rightarrow> (bool \<times> PluginManager) option" where
  "deactivateHook env pluginId s =
     (case map_of (m_plugins s) pluginId of
        None \<Rightarrow> None
      | Some plugin \<Rightarrow>
          (let (out, s1) = invokeHook env pluginId plugin Deactivate s in
           if out = Returns True
           then Some (True, emit (pluginDeactivated pluginId) (setState pluginId Initialized s1))
           else Some (False, s1)))"

subsection \<open>initializePlugin, activatePlugin, deactivatePlugin\<close>

text \<open>
  The operations call themselves on dependencies and dependents, with nothing that bounds
  the depth. The first argument bounds it here: \<open>None\<close> is a call that needs a deeper
  recursion than the bound allows, so a call that has \<open>None\<close> for every bound never
  returns.
\<close>

fun initializePlugin :: "nat \<Rightarrow> environment \<Rightarrow> string \<Rightarrow> PluginManager \<Rightarrow> (bool \<times> PluginManager) option"
and initializeDependencies ::
  "nat \<Rightarrow> environment \<Rightarrow> string \<Rightarrow> string list \<Rightarrow> PluginManager \<Rightarrow> (bool \<times> PluginManager) option"
where
  "initializePlugin 0 env pluginId s = None"
| "initializePlugin (Suc n) env pluginId s =
     (if \<not> m_initialized s then Some (False, s)
      else if \<not> isPluginLoaded s pluginId then Some (False, s)
      else if m_pluginStates s pluginId = Initialized \<or> m_pluginStates s pluginId = Active
      then Some (True, s)
      else if m_pluginStates s pluginId = Failed then Some (False, s)
      else
        let (metadata, s0) = metadataRef pluginId s in
        case initializeDependencies n env pluginId (getPluginDependencies metadata) s0 of
          None \<Rightarrow> None
        | Some (ok, s1) \<Rightarrow> if \<not> ok then Some (False, s1) else initializeHook env pluginId s1)"
| "initializeDependencies n env pluginId [] s = Some (True, s)"
| "initializeDependencies n env pluginId (depId # deps) s =
     (let (loaded, s1) = (if \<not> isPluginLoaded s depId then loadPlugin env depId s else (True, s)) in
      if \<not> loaded
      then Some (False, failPlugin pluginId (''Failed to load dependency: '' @ depId) s1)
      else if m_pluginStates s1 depId \<noteq> Initialized \<and> m_pluginStates s1 depId \<noteq> Active
      then
        (case initializePlugin n env depId s1 of
           None \<Rightarrow> None
         | Some (ok, s2) \<Rightarrow>
             if \<not> ok
             then Some (False, failPlugin pluginId (''Failed to initialize dependency: '' @ depId) s2)
             else initializeDependencies n env pluginId deps s2)
      else initializeDependencies n env pluginId deps s1)"

fun activatePlugin :: "nat \<Rightarrow> environment \<Rightarrow> string \<Rightarrow> PluginManager \<Rightarrow> (bool \<times> PluginManager) option"
and activateDependencies ::
  "nat \<Rightarrow> environment \<Rightarrow> string list \<Rightarrow> PluginManager \<Rightarrow> (bool \<times> PluginManager) option"
where
  "activatePlugin 0 env pluginId s = None"
| "activatePlugin (Suc n) env pluginId s =
     (if \<not> m_initialized s then Some (False, s)
      else if \<not> isPluginLoaded s pluginId then Some (False, s)
      else if m_pluginStates s pluginId = Active then Some (True, s)
      else if m_pluginStates s pluginId = Failed then Some (False, s)
      else
        case (if m_pluginStates s pluginId \<noteq> Initialized
              then initializePlugin n env pluginId s else Some (True, s)) of
          None \<Rightarrow> None
        | Some (initialized, s0) \<Rightarrow>
            if \<not> initialized then Some (False, s0)
            else
              let (metadata, s1) = metadataRef pluginId s0 in
              case activateDependencies n env (getPluginDependencies metadata) s1 of
                None \<Rightarrow> None
              | Some (ok, s2) \<Rightarrow> if \<not> ok then Some (False, s2) else activateHook env pluginId s2)"
| "activateDependencies n env [] s = Some (True, s)"
| "activateDependencies n env (depId # deps) s =
     (if m_pluginStates s depId \<noteq> Active
      then
        (case activatePlugin n env depId s of
           None \<Rightarrow> None
         | Some (ok, s1) \<Rightarrow> if \<not> ok then Some (False, s1) else activateDependencies n env deps s1)
      else activateDependencies n env deps s)"

text \<open>
  The loop of \<open>deactivatePlugin\<close> that collects the active plugins depending on
  \<open>pluginId\<close>, over the keys of \<open>m_plugins\<close>.
\<close>

fun activeDependents :: "string \<Rightarrow> string list \<Rightarrow> PluginManager \<Rightarrow> string list \<times> PluginManager" where
  "activeDependents pluginId [] s = ([], s)"
| "activeDependents pluginId (key # keys) s =
     (if key \<noteq> pluginId \<and> m_pluginStates s key = Active
      then
        let (metadata, s1) = metadataRef key s;
            (dependentPlugins, s2) = activeDependents pluginId keys s1
        in (if dependsOn metadata pluginId then key # dependentPlugins else dependentPlugins, s2)
      else activeDependents pluginId keys s)"

fun deactivatePlugin :: "nat \<Rightarrow> environment \<Rightarrow> string \<Rightarrow> PluginManager \<Rightarrow> (bool \<times> PluginManager) option"
and deactivateDependents ::
  "nat \<Rightarrow> environment \<Rightarrow> string list \<Rightarrow> PluginManager \<Rightarrow> (bool \<times> PluginManager) option"
where
  "deactivatePlugin 0 env pluginId s = None"
| "deactivatePlugin (Suc n) env pluginId s =
     (if \<not> m_initialized s then Some (False, s)
      else if \<not> isPluginLoaded s pluginId then Some (False, s)
      else if m_pluginStates s pluginId \<noteq> Active then Some (True, s)
      else
        let (dependentPlugins, s0) = activeDependents pluginId (qmap_keys (m_plugins s)) s in
        case deactivateDependents n env dependentPlugins s0 of
          None \<Rightarrow> None
        | Some (ok, s1) \<Rightarrow> if \<not> ok then Some (False, s1) else deactivateHook env pluginId s1)"
| "deactivateDependents n env [] s = Some (True, s)"
| "deactivateDependents n env (depId # deps) s =
     (case deactivatePlugin n env depId s of
        None \<Rightarrow> None
      | Some (ok, s1) \<Rightarrow> if \<not> ok then Some (False, s1) else deactivateDependents n env deps s1)"

subsection \<open>unloadPlugin\<close>

text \<open>
  The shutdown hook is called outside any \<open>try\<close> block: an exception it throws leaves
  \<open>unloadPlugin\<close> (\<open>Inl\<close>).
\<close>

definition releasePlugin ::
  "environment \<Rightarrow> string \<Rightarrow> PluginManager \<Rightarrow> ((exception + bool) \<times> PluginManager) option" where
  "releasePlugin env pluginId s =
     (let s1 = s\<lparr> communication := snd (unregisterAllMessageHandlers pluginId (communication s)),
                  trace := trace s @ [UnregisterAllHandlers pluginId] \<rparr> in
      case m_pluginLoaders s1 pluginId of
        None \<Rightarrow> None
      | Some loader \<Rightarrow>
          (let (ok, s2) = loaderUnload env loader s1 in
           if \<not> ok then Some (Inr False, s2)
           else Some (Inr True,
             emit (pluginUnloaded pluginId)
               (setState pluginId NotLoaded
                  (s2\<lparr> m_pluginLoaders := (m_pluginLoaders s2)(pluginId := None),
                       m_plugins := qmap_remove pluginId (m_plugins s2) \<rparr>)))))"

definition unloadPlugin ::
  "nat \<Rightarrow> environment \<Rightarrow> string \<Rightarrow> PluginManager \<Rightarrow> ((exception + bool) \<times> PluginManager) option" where
  "unloadPlugin n env pluginId s =
     (if \<not> m_initialized s then Some (Inr False, s)
      else if \<not> isPluginLoaded s pluginId then Some (Inr True, s)
      else if getDependentPlugins s pluginId \<noteq> [] then Some (Inr False, s)
      else
        case (if isPluginActive s pluginId then deactivatePlugin n env pluginId s else Some (True, s)) of
          None \<Rightarrow> None
        | Some (deactivated, s1) \<Rightarrow>
            if \<not> deactivated then Some (Inr False, s1)
            else
              (case map_of (m_plugins s1) pluginId of
                 None \<Rightarrow> None
               | Some plugin \<Rightarrow>
                   if m_pluginStates s1 pluginId = Initialized
                   then
                     (let (out, s2) = invokeHook env pluginId plugin Shutdown s1 in
                      case out of
                        Throws exc \<Rightarrow> Some (Inl exc, s2)
                      | Returns ok \<Rightarrow> if \<not> ok then Some (Inr False, s2) else releasePlugin env pluginId s2)
                   else releasePlugin env pluginId s1))"

subsection \<open>Dependency order and shutdown\<close>

fun buildDependencyGraph ::
  "nat \<Rightarrow> (string, PluginMetadata) QMap \<Rightarrow> string \<Rightarrow> string set \<times> string list \<Rightarrow>
   (string set \<times> string list) option"
and visitDependencies ::
  "nat \<Rightarrow> (string, PluginMetadata) QMap \<Rightarrow> string list \<Rightarrow> string set \<times> string list \<Rightarrow>
   (string set \<times> string list) option"
where
  "buildDependencyGraph 0 registry pluginId (visited, sortedPlugins) = None"
| "buildDependencyGraph (Suc n) registry pluginId (visited, sortedPlugins) =
     (case (case map_of registry pluginId of
              None \<Rightarrow> Some (insert pluginId visited, sortedPlugins)
            | Some metadata \<Rightarrow>
                visitDependencies n registry (getPluginDependencies metadata)
                  (insert pluginId visited, sortedPlugins)) of
        None \<Rightarrow> None
      | Some (visited', sortedPlugins') \<Rightarrow> Some (visited', sortedPlugins' @ [pluginId]))"
| "visitDependencies n registry [] (visited, sortedPlugins) = Some (visited, sortedPlugins)"
| "visitDependencies n registry (depId # deps) (visited, sortedPlugins) =
     (if depId \<notin> visited
      then
        (case buildDependencyGraph n registry depId (visited, sortedPlugins) of
           None \<Rightarrow> None
         | Some st \<Rightarrow> visitDependencies n registry deps st)
      else visitDependencies n registry deps (visited, sortedPlugins))"

definition sortPluginsByDependency ::
  "nat \<Rightarrow> (string, PluginMetadata) QMap \<Rightarrow> string list \<Rightarrow> string list option" where
  "sortPluginsByDependency n registry pluginIds =
     map_option snd (visitDependencies n registry pluginIds ({}, []))"

definition swapItemsAt :: "nat \<Rightarrow> nat \<Rightarrow> 'a list \<Rightarrow> 'a list" where
  "swapItemsAt i j xs = xs[i := xs ! j, j := xs ! i]"

function reverseLoop :: "nat \<Rightarrow> 'a list \<Rightarrow> 'a list" where
  "reverseLoop i xs =
     (if i < length xs div 2
      then reverseLoop (i + 1) (swapItemsAt i (length xs - 1 - i) xs)
      else xs)"
  by pat_completeness auto
termination
  by (relation "measure (\<lambda>(i, xs). length xs div 2 - i)") (auto simp: swapItemsAt_def)

fun shutdownLoop ::
  "nat \<Rightarrow> environment \<Rightarrow> string list \<Rightarrow> PluginManager \<Rightarrow> (exception option \<times> PluginManager) option" where
  "shutdownLoop n env [] s = Some (None, s)"
| "shutdownLoop n env (pluginId # pluginIds) s =
     (case (if isPluginActive s pluginId then deactivatePlugin n env pluginId s else Some (True, s)) of
        None \<Rightarrow> None
      | Some (deactivated, s1) \<Rightarrow>
          (case unloadPlugin n env pluginId s1 of
             None \<Rightarrow> None
           | Some (Inl exc, s2) \<Rightarrow> Some (Some exc, s2)
           | Some (Inr unloaded, s2) \<Rightarrow> shutdownLoop n env pluginIds s2))"

definition shutdown ::
  "nat \<Rightarrow> environment \<Rightarrow> PluginManager \<Rightarrow> (exception option \<times> PluginManager) option" where
  "shutdown n env s =
     (if m_initialized s
      then
        (case sortPluginsByDependency n (m_pluginMetadata s) (qmap_keys (m_plugins s)) of
           None \<Rightarrow> None
         | Some sortedPluginIds \<Rightarrow>
             (case shutdownLoop n env (reverseLoop 0 sortedPluginIds) s of
                None \<Rightarrow> None
              | Some (Some exc, s1) \<Rightarrow> Some (Some exc, s1)
              | Some (None, s1) \<Rightarrow>
                  Some (None, s1\<lparr> m_pluginLoaders := Map.empty, m_plugins := [],
                                 m_pluginMetadata := [], m_pluginStates := (\<lambda>_. NotLoaded),
                                 m_initialized := False \<rparr>)))
      else Some (None, s))"

section \<open>Notions used in the statements and proofs\<close>

text \<open>Two managers that differ in the metadata registry only.\<close>

definition metadata_only :: "PluginManager \<Rightarrow> PluginManager \<Rightarrow> bool" where
  "metadata_only s s' = (\<exists>md. s' = s\<lparr> m_pluginMetadata := md \<rparr>)"

text \<open>A metadata entry that is valid and was read from the descriptor file of its key.\<close>

definition validFromFile :: "environment \<Rightarrow> string \<Rightarrow> PluginMetadata \<Rightarrow> bool" where
  "validFromFile env pluginId md =
     (metadataFiles env (pluginId @ ''.json'') = Some (Content (ObjectDocument (m_metadata md))) \<and>
      isValid md \<and> requiredFieldsPresent (m_metadata md) \<and> getPluginId md = pluginId)"

subsection \<open>An example installation\<close>

text \<open>
  Descriptors for a chain of plugins (\<open>C\<close> depends on \<open>B\<close>, \<open>B\<close> on \<open>A\<close>), a plugin \<open>X\<close> that
  asks for framework version 99.0.0, a descriptor \<open>P\<close> whose name, version and vendor are
  not strings, and a descriptor \<open>Q\<close> with an id only.
\<close>

definition descriptor :: "string \<Rightarrow> string list \<Rightarrow> string \<Rightarrow> QJsonObject" where
  "descriptor pluginId dependencies minVersion =
     [(''id'', JString pluginId), (''name'', JString pluginId), (''version'', JString ''1.0.0''),
      (''vendor'', JString ''Example''), (''dependencies'', JArray (map JString dependencies)),
      (''minFrameworkVersion'', JString minVersion)]"

definition untypedDescriptor :: QJsonObject where
  "untypedDescriptor =
     [(''id'', JString ''P''), (''name'', JDouble 5), (''version'', JBool True), (''vendor'', JNull)]"

definition exampleFiles :: "string \<Rightarrow> metadata_file option" where
  "exampleFiles f =
     (if f = ''A.json'' then Some (Content (ObjectDocument (descriptor ''A'' [] ''1.0.0'')))
      else if f = ''B.json'' then Some (Content (ObjectDocument (descriptor ''B'' [''A''] ''1.0.0'')))
      else if f = ''C.json'' then Some (Content (ObjectDocument (descriptor ''C'' [''B''] ''1.0.0'')))
      else if f = ''X.json'' then Some (Content (ObjectDocument (descriptor ''X'' [] ''99.0.0'')))
      else if f = ''P.json'' then Some (Content (ObjectDocument untypedDescriptor))
      else if f = ''Q.json'' then Some (Content (ObjectDocument [(''id'', JString ''Q'')]))
      else None)"

definition exampleLibraries :: "string \<Rightarrow> library option" where
  "exampleLibraries f =
     (if f = ''libA.so'' then Some (PluginInstance 1)
      else if f = ''libB.so'' then Some (PluginInstance 2)
      else if f = ''libC.so'' then Some (PluginInstance 3)
      else if f = ''libX.so'' then Some (PluginInstance 4)
      else None)"

definition exampleEnvironment ::
  "(event list \<Rightarrow> IPlugin \<Rightarrow> hook \<Rightarrow> hook_outcome) \<Rightarrow> environment" where
  "exampleEnvironment behaviour =
     \<lparr> entryList = [''A.json'', ''B.json'', ''C.json'', ''P.json'', ''Q.json'', ''X.json''],
       metadataFiles = exampleFiles, libraries = exampleLibraries,
       hooks = behaviour, unloads = (\<lambda>history loader. True) \<rparr>"

definition freshManager :: PluginManager where
  "freshManager =
     \<lparr> m_pluginLoaders = Map.empty, m_plugins = [], m_pluginMetadata = [],
       m_pluginStates = (\<lambda>pluginId. NotLoaded), m_initialized = True,
       communication = \<lparr> m_handlers = Map.empty, bus_initialized = True \<rparr>, trace = [] \<rparr>"

text \<open>The step \<open>if (!m_pluginMetadata.contains(id)) loadPluginMetadata(id)\<close>.\<close>

definition ensureMetadata :: "environment \<Rightarrow> string \<Rightarrow> PluginManager \<Rightarrow> bool \<times> PluginManager" where
  "ensureMetadata env i s =
     (if \<not> qmap_contains (m_pluginMetadata s) i then loadPluginMetadata env i s else (True, s))"

subsection \<open>What a lifecycle operation may do\<close>

text \<open>The events that a call appended to the trace.\<close>

definition newEvents :: "PluginManager \<Rightarrow> PluginManager \<Rightarrow> event list" where
  "newEvents s s' = drop (length (trace s)) (trace s')"

text \<open>Every active plugin has an instance in \<open>m_plugins\<close>.\<close>

definition wellFormed :: "PluginManager \<Rightarrow> bool" where
  "wellFormed s = (\<forall>k. m_pluginStates s k = Active \<longrightarrow> map_of (m_plugins s) k \<noteq> None)"

text \<open>
  Loading, initializing and activating only add: registry entries and instances stay,
  the trace is extended, the message bus is not touched.
\<close>

definition grows :: "PluginManager \<Rightarrow> PluginManager \<Rightarrow> bool" where
  "grows s s' =
     (m_initialized s' = m_initialized s \<and> communication s' = communication s \<and>
      (\<forall>k md. map_of (m_pluginMetadata s) k = Some md \<longrightarrow> map_of (m_pluginMetadata s') k = Some md) \<and>
      (\<forall>k p. map_of (m_plugins s) k = Some p \<longrightarrow> map_of (m_plugins s') k = Some p) \<and>
      (\<exists>evs. trace s' = trace s @ evs))"

text \<open>An initialize or activate hook that was invoked and did not return true.\<close>

fun failedHook :: "event \<Rightarrow> bool" where
  "failedHook (HookCall x h out snapshot) = ((h = Initialize \<or> h = Activate) \<and> out \<noteq> Returns True)"
| "failedHook _ = False"

fun failureMessage :: "hook \<Rightarrow> hook_outcome \<Rightarrow> string" where
  "failureMessage Initialize out = initializeFailure out"
| "failureMessage Activate out = activateFailure out"
| "failureMessage h out = []"

fun isFailedSignal :: "event \<Rightarrow> bool" where
  "isFailedSignal (Emit (pluginFailed x message)) = True"
| "isFailedSignal _ = False"

text \<open>
  The events of a call in which one hook failed: the failed call is followed at once by
  \<open>pluginFailed\<close> for that plugin with the message of the failure, then only by further
  \<open>pluginFailed\<close> signals; that plugin is in state \<open>Failed\<close>.
\<close>

definition reported :: "(string \<Rightarrow> PluginState) \<Rightarrow> event list \<Rightarrow> bool" where
  "reported states evs =
     (\<exists>pre x h out snapshot post.
        evs = pre @ HookCall x h out snapshot # Emit (pluginFailed x (failureMessage h out)) # post \<and>
        (\<forall>e \<in> set pre. \<not> failedHook e) \<and> failedHook (HookCall x h out snapshot) \<and>
        (\<forall>e \<in> set post. isFailedSignal e) \<and> states x = Failed)"

definition outcomeReported :: "bool \<Rightarrow> (string \<Rightarrow> PluginState) \<Rightarrow> event list \<Rightarrow> bool" where
  "outcomeReported r states evs =
     (if r then (\<forall>e \<in> set evs. \<not> failedHook e)
      else (\<forall>e \<in> set evs. \<not> failedHook e) \<or> reported states evs)"

text \<open>
  An activate hook is invoked for a plugin with a registry entry, at a moment when every
  dependency that entry declares is active.
\<close>

fun activatedWithDependencies :: "(string, PluginMetadata) QMap \<Rightarrow> event \<Rightarrow> bool" where
  "activatedWithDependencies registry (HookCall x Activate out snapshot) =
     (case map_of registry x of
        None \<Rightarrow> False
      | Some md \<Rightarrow> (\<forall>d \<in> set (getPluginDependencies md). snapshot d = Active))"
| "activatedWithDependencies registry e = True"

text \<open>
  A plugin that is active at some moment of a call was active before the call, or its
  \<open>pluginActivated\<close> signal has been emitted earlier in the call.
\<close>

definition signalled :: "(string \<Rightarrow> PluginState) \<Rightarrow> event list \<Rightarrow> (string \<Rightarrow> PluginState) \<Rightarrow> bool" where
  "signalled before evs after =
     ((\<forall>pre x h out snapshot post k.
          evs = pre @ HookCall x h out snapshot # post \<longrightarrow> snapshot k = Active \<longrightarrow>
          before k = Active \<or> Emit (pluginActivated k) \<in> set pre) \<and>
      (\<forall>k. after k = Active \<longrightarrow> before k = Active \<or> Emit (pluginActivated k) \<in> set evs))"

definition lifecycle :: "PluginManager \<Rightarrow> bool \<Rightarrow> PluginManager \<Rightarrow> bool" where
  "lifecycle s r s' =
     (grows s s' \<and>
      outcomeReported r (m_pluginStates s') (newEvents s s') \<and>
      signalled (m_pluginStates s) (newEvents s s') (m_pluginStates s') \<and>
      (wellFormed s \<longrightarrow>
         wellFormed s' \<and> (\<forall>k. m_pluginStates s k = Active \<longrightarrow> m_pluginStates s' k = Active) \<and>
         (\<forall>e \<in> set (newEvents s s'). activatedWithDependencies (m_pluginMetadata s') e)))"

definition noNewActive :: "PluginManager \<Rightarrow> PluginManager \<Rightarrow> bool" where
  "noNewActive s s' =
     ((\<forall>k. m_pluginStates s' k = Active \<longrightarrow> m_pluginStates s k = Active) \<and>
      (\<forall>e \<in> set (newEvents s s'). \<forall>x h out snapshot. e = HookCall x h out snapshot \<longrightarrow> h = Initialize))"

subsection \<open>What deactivation may do\<close>

text \<open>Deactivation leaves the instances and loaders alone.\<close>

definition steady :: "PluginManager \<Rightarrow> PluginManager \<Rightarrow> bool" where
  "steady s s' = (grows s s' \<and> m_plugins s' = m_plugins s \<and> m_pluginLoaders s' = m_pluginLoaders s)"

text \<open>\<open>z\<close> is another loaded plugin whose registry entry declares a dependency on \<open>y\<close>.\<close>

definition dependentOn :: "PluginManager \<Rightarrow> string \<Rightarrow> string \<Rightarrow> bool" where
  "dependentOn s z y =
     (z \<noteq> y \<and> z \<in> set (qmap_keys (m_plugins s)) \<and>
      (\<exists>md. map_of (m_pluginMetadata s) z = Some md \<and> dependsOn md y))"

definition held :: "string set \<Rightarrow> PluginManager \<Rightarrow> bool" where
  "held St s = (\<forall>y \<in> St. m_pluginStates s y = Active)"

fun deactivationEvent :: "event \<Rightarrow> bool" where
  "deactivationEvent (HookCall x Deactivate out snapshot) = (snapshot x = Active)"
| "deactivationEvent (Emit (pluginDeactivated x)) = True"
| "deactivationEvent e = False"

fun failedDeactivation :: "event \<Rightarrow> bool" where
  "failedDeactivation (HookCall x h out snapshot) = (out \<noteq> Returns True)"
| "failedDeactivation e = False"

text \<open>
  The events of a deactivation: deactivate hooks of active plugins and
  \<open>pluginDeactivated\<close> signals; a hook that fails is the last event, and the plugin states
  are then still those of the moment it was called.
\<close>

definition deactivationTrace :: "bool \<Rightarrow> (string \<Rightarrow> PluginState) \<Rightarrow> event list \<Rightarrow> bool" where
  "deactivationTrace r states evs =
     ((\<forall>e \<in> set evs. deactivationEvent e) \<and>
      (if r then (\<forall>e \<in> set evs. \<not> failedDeactivation e)
       else (\<forall>e \<in> set evs. \<not> failedDeactivation e) \<or>
            (\<exists>pre x out. evs = pre @ [HookCall x Deactivate out states] \<and> out \<noteq> Returns True \<and>
               (\<forall>e \<in> set pre. \<not> failedDeactivation e))))"

definition deactivation :: "PluginManager \<Rightarrow> bool \<Rightarrow> PluginManager \<Rightarrow> bool" where
  "deactivation s r s' =
     (steady s s' \<and>
      (\<forall>k. m_pluginStates s' k = m_pluginStates s k \<or>
           (m_pluginStates s k = Active \<and> m_pluginStates s' k = Initialized)) \<and>
      deactivationTrace r (m_pluginStates s') (newEvents s s'))"

text \<open>
  The example installation with \<open>A\<close>, \<open>B\<close>, \<open>C\<close> and \<open>X\<close> registered and with \<open>A\<close>, \<open>B\<close> and
  \<open>C\<close> loaded, in given states, and with given handlers on the message bus.
\<close>

definition exampleRegistry :: "(string, PluginMetadata) QMap" where
  "exampleRegistry =
     [(''A'', \<lparr> m_metadata = descriptor ''A'' [] ''1.0.0'', m_isValid = True \<rparr>),
      (''B'', \<lparr> m_metadata = descriptor ''B'' [''A''] ''1.0.0'', m_isValid = True \<rparr>),
      (''C'', \<lparr> m_metadata = descriptor ''C'' [''B''] ''1.0.0'', m_isValid = True \<rparr>),
      (''X'', \<lparr> m_metadata = descriptor ''X'' [] ''99.0.0'', m_isValid = True \<rparr>)]"

definition loadedManager ::
  "(string \<Rightarrow> PluginState) \<Rightarrow> (string \<Rightarrow> MessageHandlerFunc option) \<Rightarrow> PluginManager" where
  "loadedManager states handlers =
     \<lparr> m_pluginLoaders = [''A'' \<mapsto> ''libA.so'', ''B'' \<mapsto> ''libB.so'', ''C'' \<mapsto> ''libC.so''],
       m_plugins = [(''A'', 1), (''B'', 2), (''C'', 3)],
       m_pluginMetadata = exampleRegistry,
       m_pluginStates = states, m_initialized = True,
       communication = \<lparr> m_handlers = handlers, bus_initialized = True \<rparr>, trace = [] \<rparr>"

text \<open>The example installation with its registry filled, nothing loaded.\<close>

definition registeredManager :: PluginManager where
  "registeredManager = freshManager\<lparr> m_pluginMetadata := exampleRegistry \<rparr>"

subsection \<open>The dependency graph of a registry\<close>

definition dependenciesOf :: "(string, PluginMetadata) QMap \<Rightarrow> string \<Rightarrow> string list" where
  "dependenciesOf registry p =
     (case map_of registry p of None \<Rightarrow> [] | Some md \<Rightarrow> getPluginDependencies md)"

definition dependencyRelation :: "(string, PluginMetadata) QMap \<Rightarrow> (string \<times> string) set" where
  "dependencyRelation registry = {(p, d). d \<in> set (dependenciesOf registry p)}"

text \<open>In a sequence of plugin ids, every declared dependency of an id stands before it.\<close>

definition dependenciesFirst :: "(string, PluginMetadata) QMap \<Rightarrow> string list \<Rightarrow> bool" where
  "dependenciesFirst registry sortedPlugins =
     (\<forall>xs p ys. sortedPlugins = xs @ p # ys \<longrightarrow> set (dependenciesOf registry p) \<subseteq> set xs)"

text \<open>A registry with a self-reference and a cycle: \<open>A\<close> names itself and \<open>B\<close>, \<open>B\<close> names \<open>A\<close>.\<close>

definition cyclicRegistry :: "(string, PluginMetadata) QMap" where
  "cyclicRegistry =
     [(''A'', \<lparr> m_metadata = descriptor ''A'' [''A'', ''B''] ''1.0.0'', m_isValid = True \<rparr>),
      (''B'', \<lparr> m_metadata = descriptor ''B'' [''A''] ''1.0.0'', m_isValid = True \<rparr>)]"

text \<open>What one visit of the depth-first traversal adds to the visited set and to the output:
  new ids, each once, none of them visited before.\<close>

definition extends :: "string set \<times> string list \<Rightarrow> string set \<times> string list \<Rightarrow> bool" where
  "extends st st' =
     (\<exists>new. snd st' = snd st @ new \<and> fst st' = fst st \<union> set new \<and> distinct new \<and>
            set new \<inter> fst st = {})"

text \<open>The ids visited whose own entry is still to be appended, and the invariant of the
  traversal on an acyclic registry.\<close>

definition pending :: "string set \<times> string list \<Rightarrow> string set" where
  "pending st = fst st - set (snd st)"

definition consistent :: "(string, PluginMetadata) QMap \<Rightarrow> string set \<times> string list \<Rightarrow> bool" where
  "consistent registry st = (dependenciesFirst registry (snd st) \<and> set (snd st) \<subseteq> fst st)"

text \<open>The plugin hooks called in a trace, in order.\<close>

fun hookOf :: "event \<Rightarrow> (string \<times> hook) list" where
  "hookOf (HookCall pluginId h outcome snapshot) = [(pluginId, h)]"
| "hookOf e = []"

definition hookCalls :: "event list \<Rightarrow> (string \<times> hook) list" where
  "hookCalls events = concat (map hookOf events)"

text \<open>What \<open>shutdown\<close> leaves when its loop has run to the end.\<close>

definition cleared :: "PluginManager \<Rightarrow> PluginManager" where
  "cleared s = s\<lparr> m_pluginLoaders := Map.empty, m_plugins := [], m_pluginMetadata := [],
                 m_pluginStates := (\<lambda>_. NotLoaded), m_initialized := False \<rparr>"

text \<open>The messages that \<open>initializePlugin\<close> and \<open>activatePlugin\<close> pass to \<open>pluginFailed\<close> for a
  hook that returned false, threw a \<open>PluginException\<close> or a \<open>std::exception\<close> with a message,
  or threw anything else.\<close>

abbreviation initializeFailureText :: "hook_outcome \<Rightarrow> string" where
  "initializeFailureText out \<equiv>
     (case out of
        Returns b \<Rightarrow> ''Failed to initialize''
      | Throws e \<Rightarrow>
          (case e of
             PluginException message \<Rightarrow> ''Exception during initialization: '' @ message
           | StdException message \<Rightarrow> ''Exception during initialization: '' @ message
           | UnknownException \<Rightarrow> ''Unknown exception during initialization''))"

abbreviation activateFailureText :: "hook_outcome \<Rightarrow> string" where
  "activateFailureText out \<equiv>
     (case out of
        Returns b \<Rightarrow> ''Failed to activate''
      | Throws e \<Rightarrow>
          (case e of
             PluginException message \<Rightarrow> ''Exception during activation: '' @ message
           | StdException message \<Rightarrow> ''Exception during activation: '' @ message
           | UnknownException \<Rightarrow> ''Unknown exception during activation''))"

text \<open>
  What \<open>deactivatePlugin i\<close> needs in order to return success: every active plugin has an
  instance, the declared dependencies have no cycle, and the deactivate hooks of \<open>i\<close> and of
  the plugins that depend on it, directly or through others, return true.
\<close>

definition deactivationReady :: "environment \<Rightarrow> PluginManager \<Rightarrow> string \<Rightarrow> bool" where
  "deactivationReady env s i =
     (m_initialized s \<and> wellFormed s \<and> acyclic (dependencyRelation (m_pluginMetadata s)) \<and>
      (\<forall>p plugin history.
         (p = i \<or> (p, i) \<in> (dependencyRelation (m_pluginMetadata s))\<^sup>+) \<and>
         map_of (m_plugins s) p = Some plugin \<longrightarrow>
         hooks env history plugin Deactivate = Returns True))"

section \<open>Basic facts\<close>

declare fromString.simps [simp del]

lemma map_of_qmap_insert [simp]: "map_of (qmap_insert k v m) = (map_of m)(k \<mapsto> v)"
  by (induction m) (auto simp: fun_eq_iff)

lemma map_of_qmap_remove [simp]: "map_of (qmap_remove k m) = (map_of m)(k := None)"
  by (induction m) (auto simp: qmap_remove_def fun_eq_iff)

lemma emit_fields [simp]:
  "m_initialized (emit e s) = m_initialized s"
  "m_plugins (emit e s) = m_plugins s"
  "m_pluginMetadata (emit e s) = m_pluginMetadata s"
  "m_pluginStates (emit e s) = m_pluginStates s"
  "m_pluginLoaders (emit e s) = m_pluginLoaders s"
  "communication (emit e s) = communication s"
  "trace (emit e s) = trace s @ [Emit e]"
  by (simp_all add: emit_def)

lemma setState_fields [simp]:
  "m_initialized (setState i st s) = m_initialized s"
  "m_plugins (setState i st s) = m_plugins s"
  "m_pluginMetadata (setState i st s) = m_pluginMetadata s"
  "m_pluginStates (setState i st s) = (m_pluginStates s)(i := st)"
  "m_pluginLoaders (setState i st s) = m_pluginLoaders s"
  "communication (setState i st s) = communication s"
  "trace (setState i st s) = trace s"
  by (simp_all add: setState_def)

lemma failPlugin_fields [simp]:
  "m_initialized (failPlugin i msg s) = m_initialized s"
  "m_plugins (failPlugin i msg s) = m_plugins s"
  "m_pluginMetadata (failPlugin i msg s) = m_pluginMetadata s"
  "m_pluginStates (failPlugin i msg s) = (m_pluginStates s)(i := Failed)"
  "m_pluginLoaders (failPlugin i msg s) = m_pluginLoaders s"
  "communication (failPlugin i msg s) = communication s"
  "trace (failPlugin i msg s) = trace s @ [Emit (pluginFailed i msg)]"
  by (simp_all add: failPlugin_def)

lemma invokeHook_fields [simp]:
  "fst (invokeHook env i p h s) = hooks env (trace s) p h"
  "m_initialized (snd (invokeHook env i p h s)) = m_initialized s"
  "m_plugins (snd (invokeHook env i p h s)) = m_plugins s"
  "m_pluginMetadata (snd (invokeHook env i p h s)) = m_pluginMetadata s"
  "m_pluginStates (snd (invokeHook env i p h s)) = m_pluginStates s"
  "m_pluginLoaders (snd (invokeHook env i p h s)) = m_pluginLoaders s"
  "communication (snd (invokeHook env i p h s)) = communication s"
  "trace (snd (invokeHook env i p h s)) =
     trace s @ [HookCall i h (hooks env (trace s) p h) (m_pluginStates s)]"
  by (simp_all add: invokeHook_def Let_def)


lemma metadata_only_refl [simp]: "metadata_only s s"
  unfolding metadata_only_def by (rule exI [of _ "m_pluginMetadata s"]) simp

lemma metadata_only_trans: "metadata_only s s1 \<Longrightarrow> metadata_only s1 s2 \<Longrightarrow> metadata_only s s2"
  unfolding metadata_only_def by auto

lemma metadata_only_fields:
  assumes "metadata_only s s'"
  shows "m_initialized s' = m_initialized s" "m_plugins s' = m_plugins s"
    "m_pluginStates s' = m_pluginStates s" "m_pluginLoaders s' = m_pluginLoaders s"
    "communication s' = communication s" "trace s' = trace s"
  using assms unfolding metadata_only_def by auto

lemma metadata_onlyI: "metadata_only s (s\<lparr> m_pluginMetadata := md \<rparr>)"
  unfolding metadata_only_def by blast

lemma metadataRef_only [simp]: "metadata_only s (snd (metadataRef i s))"
  unfolding metadataRef_def by (simp add: metadata_onlyI split: option.splits)

lemma loadPluginMetadata_only [simp]: "metadata_only s (snd (loadPluginMetadata env i s))"
  unfolding loadPluginMetadata_def
  by (simp add: Let_def case_prod_beta metadata_onlyI split: option.splits)

lemma checkDependencies_only [simp]: "metadata_only s (snd (checkDependencies env ds s))"
proof (induction ds arbitrary: s)
  case Nil
  show ?case by simp
next
  case (Cons d ds)
  define s1 where "s1 = snd (if \<not> qmap_contains (m_pluginMetadata s) d
                         then loadPluginMetadata env d s else (True, s))"
  define s2 where "s2 = snd (metadataRef d s1)"
  have a: "metadata_only s s1" by (simp add: s1_def)
  have b: "metadata_only s1 s2" by (simp add: s2_def)
  have c: "metadata_only s2 (snd (checkDependencies env ds s2))" by (rule Cons.IH)
  have ab: "metadata_only s s2" using a b by (rule metadata_only_trans)
  have abc: "metadata_only s (snd (checkDependencies env ds s2))"
    using ab c by (rule metadata_only_trans)
  show ?case
    using a ab abc unfolding s2_def s1_def
    by (cases "qmap_contains (m_pluginMetadata s) d") (simp_all add: Let_def case_prod_beta)
qed

lemma checkPluginDependencies_only [simp]:
  "metadata_only s (snd (checkPluginDependencies env i s))"
  unfolding checkPluginDependencies_def
  by (simp add: Let_def case_prod_beta metadata_only_trans [OF metadataRef_only checkDependencies_only])

subsection \<open>Metadata parsing and scanning\<close>

lemma loadFromString_valid:
  "fst (loadFromString md doc) \<or> isValid (snd (loadFromString md doc)) \<Longrightarrow>
   \<exists>obj. doc = ObjectDocument obj \<and> requiredFieldsPresent obj \<and>
     loadFromString md doc = (True, \<lparr> m_metadata = obj, m_isValid = True \<rparr>)"
  by (cases doc) (auto simp: loadFromString_def isValid_def)

lemma loadPluginMetadata_cases:
  assumes "loadPluginMetadata env k s = (ok, s')"
  shows "(\<not> ok \<and> s' = s) \<or>
     (ok \<and> (\<exists>md. validFromFile env k md \<and>
        s' = s\<lparr> m_pluginMetadata := qmap_insert k md (m_pluginMetadata s) \<rparr>))"
proof (cases "metadataFiles env (k @ ''.json'')")
  case None
  with assms show ?thesis by (simp add: loadPluginMetadata_def)
next
  case (Some f)
  show ?thesis
  proof (cases f)
    case Unreadable
    with Some assms show ?thesis by (simp add: loadPluginMetadata_def loadFromFile_def)
  next
    case (Content doc)
    show ?thesis
    proof (cases "fst (loadFromString PluginMetadata_default doc)")
      case False
      with Some Content assms show ?thesis
        by (auto simp: loadPluginMetadata_def loadFromFile_def Let_def case_prod_beta)
    next
      case True
      then obtain obj where obj: "doc = ObjectDocument obj" "requiredFieldsPresent obj"
        "loadFromString PluginMetadata_default doc = (True, \<lparr> m_metadata = obj, m_isValid = True \<rparr>)"
        using loadFromString_valid by blast
      show ?thesis
      proof (cases "getPluginId \<lparr> m_metadata = obj, m_isValid = True \<rparr> = k")
        case False
        with obj Some Content assms show ?thesis
          by (auto simp: loadPluginMetadata_def loadFromFile_def Let_def isValid_def)
      next
        case True
        with obj Some Content assms
        have "ok \<and> validFromFile env k \<lparr> m_metadata = obj, m_isValid = True \<rparr> \<and>
          s' = s\<lparr> m_pluginMetadata := qmap_insert k \<lparr> m_metadata = obj, m_isValid = True \<rparr> (m_pluginMetadata s) \<rparr>"
          by (auto simp: loadPluginMetadata_def loadFromFile_def Let_def validFromFile_def isValid_def)
        then show ?thesis by blast
      qed
    qed
  qed
qed

lemma scanFiles_registry:
  "scanFiles env fs s = (ids, s') \<Longrightarrow>
   (p \<in> set ids \<or> map_of (m_pluginMetadata s') p \<noteq> map_of (m_pluginMetadata s) p) \<Longrightarrow>
   \<exists>md. map_of (m_pluginMetadata s') p = Some md \<and> validFromFile env p md"
proof (induction fs arbitrary: s ids s')
  case Nil
  then show ?case by simp
next
  case (Cons f fs)
  obtain ok s1 where l: "loadPluginMetadata env (baseName f) s = (ok, s1)"
    by (cases "loadPluginMetadata env (baseName f) s")
  obtain ids2 s2 where r: "scanFiles env fs s1 = (ids2, s2)"
    by (cases "scanFiles env fs s1")
  from Cons.prems(1) l r have ids: "ids = (if ok then baseName f # ids2 else ids2)" and s': "s' = s2"
    by (simp_all add: Let_def)
  have step: "map_of (m_pluginMetadata s1) p \<noteq> map_of (m_pluginMetadata s) p \<or> (ok \<and> p = baseName f)
      \<Longrightarrow> \<exists>md. map_of (m_pluginMetadata s1) p = Some md \<and> validFromFile env p md"
    using loadPluginMetadata_cases [OF l] by (auto split: if_splits)
  show ?case
  proof (cases "p \<in> set ids2 \<or> map_of (m_pluginMetadata s2) p \<noteq> map_of (m_pluginMetadata s1) p")
    case True
    then show ?thesis using Cons.IH [OF r] s' by simp
  next
    case False
    then have same: "map_of (m_pluginMetadata s2) p = map_of (m_pluginMetadata s1) p" and "p \<notin> set ids2"
      by simp_all
    with Cons.prems(2) ids s' have "map_of (m_pluginMetadata s1) p \<noteq> map_of (m_pluginMetadata s) p \<or> (ok \<and> p = baseName f)"
      by (auto split: if_splits)
    from step [OF this] same s' show ?thesis by simp
  qed
qed

subsection \<open>Case analysis of the recursive operations\<close>

lemma initializePlugin_cases:
  assumes "initializePlugin k env i s = Some (r, s')"
  obtains (early) "s' = s" "r = (m_initialized s \<and> isPluginLoaded s i \<and> (m_pluginStates s i = Initialized \<or> m_pluginStates s i = Active))"
      "\<not> (m_initialized s \<and> isPluginLoaded s i \<and> m_pluginStates s i \<noteq> Initialized \<and> m_pluginStates s i \<noteq> Active \<and> m_pluginStates s i \<noteq> Failed)"
  | (failed) n where "k = Suc n" "m_initialized s" "isPluginLoaded s i"
      "m_pluginStates s i \<noteq> Initialized" "m_pluginStates s i \<noteq> Active" "m_pluginStates s i \<noteq> Failed"
      "initializeDependencies n env i (getPluginDependencies (fst (metadataRef i s))) (snd (metadataRef i s)) = Some (False, s')"
      "\<not> r"
  | (hook) n s1 where "k = Suc n" "m_initialized s" "isPluginLoaded s i"
      "m_pluginStates s i \<noteq> Initialized" "m_pluginStates s i \<noteq> Active" "m_pluginStates s i \<noteq> Failed"
      "initializeDependencies n env i (getPluginDependencies (fst (metadataRef i s))) (snd (metadataRef i s)) = Some (True, s1)"
      "initializeHook env i s1 = Some (r, s')"
proof (cases k)
  case 0
  with assms show ?thesis by simp
next
  case (Suc n)
  show ?thesis
  proof (cases "m_initialized s \<and> isPluginLoaded s i \<and> m_pluginStates s i \<noteq> Initialized \<and> m_pluginStates s i \<noteq> Active \<and> m_pluginStates s i \<noteq> Failed")
    case False
    with assms Suc have "s' = s" and "r = (m_initialized s \<and> isPluginLoaded s i \<and> (m_pluginStates s i = Initialized \<or> m_pluginStates s i = Active))"
      by (auto split: if_splits)
    with False show ?thesis by (intro early) simp_all
  next
    case True
    let ?D = "initializeDependencies n env i (getPluginDependencies (fst (metadataRef i s))) (snd (metadataRef i s))"
    from True assms Suc
    have eq: "(case ?D of None \<Rightarrow> None
               | Some (ok, s1) \<Rightarrow> if \<not> ok then Some (False, s1) else initializeHook env i s1) = Some (r, s')"
      by (simp add: case_prod_beta)
    show ?thesis
    proof (cases ?D)
      case None
      with eq show ?thesis by simp
    next
      case (Some res)
      obtain ok s1 where res: "res = (ok, s1)" by (cases res)
      show ?thesis
      proof (cases ok)
        case False
        with Some res eq True Suc show ?thesis by (intro failed [of n]) auto
      next
        case ok: True
        with Some res eq True Suc show ?thesis by (intro hook [of n s1]) auto
      qed
    qed
  qed
qed

lemma initializeDependencies_cases:
  assumes "initializeDependencies n env p (d # ds) s = Some (r, s')"
  defines "s1 \<equiv> (if \<not> isPluginLoaded s d then snd (loadPlugin env d s) else s)"
  obtains (load_failed) "\<not> isPluginLoaded s d" "\<not> fst (loadPlugin env d s)" "\<not> r"
      "s' = failPlugin p (''Failed to load dependency: '' @ d) (snd (loadPlugin env d s))"
  | (skip) "isPluginLoaded s d \<or> fst (loadPlugin env d s)"
      "m_pluginStates s1 d = Initialized \<or> m_pluginStates s1 d = Active"
      "initializeDependencies n env p ds s1 = Some (r, s')"
  | (init_failed) s2 where "isPluginLoaded s d \<or> fst (loadPlugin env d s)"
      "m_pluginStates s1 d \<noteq> Initialized" "m_pluginStates s1 d \<noteq> Active"
      "initializePlugin n env d s1 = Some (False, s2)" "\<not> r"
      "s' = failPlugin p (''Failed to initialize dependency: '' @ d) s2"
  | (init_ok) s2 where "isPluginLoaded s d \<or> fst (loadPlugin env d s)"
      "m_pluginStates s1 d \<noteq> Initialized" "m_pluginStates s1 d \<noteq> Active"
      "initializePlugin n env d s1 = Some (True, s2)"
      "initializeDependencies n env p ds s2 = Some (r, s')"
proof (cases "isPluginLoaded s d \<or> fst (loadPlugin env d s)")
  case False
  with assms show ?thesis
    by (intro load_failed) (auto simp: case_prod_beta Let_def)
next
  case True
  show ?thesis
  proof (cases "m_pluginStates s1 d = Initialized \<or> m_pluginStates s1 d = Active")
    case skip': True
    with True assms show ?thesis
      by (intro skip) (auto simp: case_prod_beta Let_def split: if_splits)
  next
    case False
    from True False assms
    have eq: "(case initializePlugin n env d s1 of None \<Rightarrow> None
               | Some (ok, s2) \<Rightarrow>
                   if \<not> ok then Some (False, failPlugin p (''Failed to initialize dependency: '' @ d) s2)
                   else initializeDependencies n env p ds s2) = Some (r, s')"
      by (auto simp: case_prod_beta Let_def split: if_splits)
    show ?thesis
    proof (cases "initializePlugin n env d s1")
      case None
      with eq show ?thesis by simp
    next
      case (Some res)
      obtain ok s2 where res: "res = (ok, s2)" by (cases res)
      show ?thesis
      proof (cases ok)
        case ok: True
        with Some res eq True False show ?thesis by (intro init_ok [of s2]) auto
      next
        case nok: False
        with Some res eq True False show ?thesis by (intro init_failed [of s2]) auto
      qed
    qed
  qed
qed

subsection \<open>Composing the effects of operations\<close>

lemma grows_refl [simp]: "grows s s"
  by (simp add: grows_def)

lemma grows_trans: "grows s s1 \<Longrightarrow> grows s1 s2 \<Longrightarrow> grows s s2"
  unfolding grows_def by (elim conjE exE, intro conjI) auto

lemma grows_trace: "grows s s' \<Longrightarrow> trace s' = trace s @ newEvents s s'"
  by (auto simp: grows_def newEvents_def)

lemma newEvents_refl [simp]: "newEvents s s = []"
  by (simp add: newEvents_def)

lemma newEvents_append:
  "grows s s1 \<Longrightarrow> grows s1 s2 \<Longrightarrow> newEvents s s2 = newEvents s s1 @ newEvents s1 s2"
  by (auto simp: grows_def newEvents_def)

lemma newEvents_trace_append:
  "trace s' = trace s @ evs \<Longrightarrow> newEvents s s' = evs"
  by (simp add: newEvents_def)

lemma activatedWithDependencies_mono:
  assumes "activatedWithDependencies reg e"
    and "\<And>k md. map_of reg k = Some md \<Longrightarrow> map_of reg' k = Some md"
  shows "activatedWithDependencies reg' e"
proof (cases e)
  case (HookCall x h out snap)
  with assms show ?thesis by (cases h) (auto split: option.splits)
qed simp_all

lemma reported_prefix:
  assumes "reported st evs" "\<forall>e \<in> set pre. \<not> failedHook e"
  shows "reported st (pre @ evs)"
proof -
  from assms(1) obtain p x h out snap post where
    e: "evs = p @ HookCall x h out snap # Emit (pluginFailed x (failureMessage h out)) # post"
    and r: "\<forall>e \<in> set p. \<not> failedHook e" "failedHook (HookCall x h out snap)"
       "\<forall>e \<in> set post. isFailedSignal e" "st x = Failed"
    unfolding reported_def by blast
  from e have "pre @ evs = (pre @ p) @ HookCall x h out snap # Emit (pluginFailed x (failureMessage h out)) # post"
    by simp
  moreover from r(1) assms(2) have "\<forall>e \<in> set (pre @ p). \<not> failedHook e" by auto
  ultimately show ?thesis using r(2-4) unfolding reported_def by blast
qed

lemma reported_failed:
  assumes "reported st evs"
  shows "reported (st(p := Failed)) (evs @ [Emit (pluginFailed p m)])"
proof -
  from assms obtain pre x h out snap post where
    e: "evs = pre @ HookCall x h out snap # Emit (pluginFailed x (failureMessage h out)) # post"
    and r: "\<forall>e \<in> set pre. \<not> failedHook e" "failedHook (HookCall x h out snap)"
       "\<forall>e \<in> set post. isFailedSignal e" "st x = Failed"
    unfolding reported_def by blast
  from e have "evs @ [Emit (pluginFailed p m)] =
      pre @ HookCall x h out snap # Emit (pluginFailed x (failureMessage h out)) # (post @ [Emit (pluginFailed p m)])"
    by simp
  moreover from r(3) have "\<forall>e \<in> set (post @ [Emit (pluginFailed p m)]). isFailedSignal e" by auto
  moreover from r(4) have "(st(p := Failed)) x = Failed" by simp
  ultimately show ?thesis using r(1,2) unfolding reported_def by blast
qed

lemma outcomeReported_seq:
  assumes "outcomeReported True st1 e1" "outcomeReported r st2 e2"
  shows "outcomeReported r st2 (e1 @ e2)"
  using assms reported_prefix [of st2 e2 e1]
  by (auto simp: outcomeReported_def split: if_splits)

lemma outcomeReported_failed:
  assumes "outcomeReported r st evs"
  shows "outcomeReported False (st(p := Failed)) (evs @ [Emit (pluginFailed p m)])"
  using assms reported_failed [of st evs p m]
  by (auto simp: outcomeReported_def split: if_splits)

lemma signalled_refl [simp]: "signalled st [] st"
  by (simp add: signalled_def)

lemma signalled_no_hooks:
  assumes "\<And>x h out snap. HookCall x h out snap \<notin> set evs"
    and "\<And>k. after k = Active \<Longrightarrow> before k = Active \<or> Emit (pluginActivated k) \<in> set evs"
  shows "signalled before evs after"
  unfolding signalled_def using assms by (metis in_set_conv_decomp)

lemma signalled_seq:
  assumes a: "signalled st0 e1 st1" and b: "signalled st1 e2 st2"
  shows "signalled st0 (e1 @ e2) st2"
  unfolding signalled_def
proof (intro conjI allI impI)
  fix pre x h out snap post k
  assume eq: "e1 @ e2 = pre @ HookCall x h out snap # post" and act: "snap k = Active"
  from eq consider (left) us where "e1 = pre @ HookCall x h out snap # us" "post = us @ e2"
    | (right) us where "pre = e1 @ us" "e2 = us @ HookCall x h out snap # post"
    by (auto simp: append_eq_append_conv2 append_eq_Cons_conv Cons_eq_append_conv)
  then show "st0 k = Active \<or> Emit (pluginActivated k) \<in> set pre"
  proof cases
    case left
    with a act show ?thesis unfolding signalled_def by blast
  next
    case right
    with b act have "st1 k = Active \<or> Emit (pluginActivated k) \<in> set us"
      unfolding signalled_def by blast
    moreover from a have "st1 k = Active \<Longrightarrow> st0 k = Active \<or> Emit (pluginActivated k) \<in> set e1"
      unfolding signalled_def by blast
    ultimately show ?thesis using right(1) by auto
  qed
next
  fix k assume "st2 k = Active"
  with b have "st1 k = Active \<or> Emit (pluginActivated k) \<in> set e2" unfolding signalled_def by blast
  moreover from a have "st1 k = Active \<Longrightarrow> st0 k = Active \<or> Emit (pluginActivated k) \<in> set e1"
    unfolding signalled_def by blast
  ultimately show "st0 k = Active \<or> Emit (pluginActivated k) \<in> set (e1 @ e2)" by auto
qed

lemma signalled_signal:
  assumes "\<And>k. after k = Active \<Longrightarrow> before k = Active \<or> e = Emit (pluginActivated k)"
    and "\<And>x h out snap. e \<noteq> HookCall x h out snap"
  shows "signalled before [e] after"
  unfolding signalled_def using assms by (auto simp: Cons_eq_append_conv)

lemma signalled_hook:
  assumes "\<And>k. after k = Active \<Longrightarrow> before k = Active \<or> e = Emit (pluginActivated k)"
    and "\<And>x h out snap. e \<noteq> HookCall x h out snap"
  shows "signalled before [HookCall x h out before, e] after"
  unfolding signalled_def using assms by (auto simp: Cons_eq_append_conv)

lemma lifecycle_refl [simp]: "lifecycle s r s"
  by (simp add: lifecycle_def outcomeReported_def)

lemma lifecycle_seq:
  assumes a: "lifecycle s True s1" and b: "lifecycle s1 r s2"
  shows "lifecycle s r s2"
proof -
  from a b have g1: "grows s s1" and g2: "grows s1 s2" by (simp_all add: lifecycle_def)
  have g: "grows s s2" using g1 g2 by (rule grows_trans)
  have ev: "newEvents s s2 = newEvents s s1 @ newEvents s1 s2"
    using g1 g2 by (rule newEvents_append)
  from a have o1: "outcomeReported True (m_pluginStates s1) (newEvents s s1)"
    by (simp add: lifecycle_def)
  from b have o2: "outcomeReported r (m_pluginStates s2) (newEvents s1 s2)"
    by (simp add: lifecycle_def)
  have o: "outcomeReported r (m_pluginStates s2) (newEvents s s2)"
    unfolding ev using o1 o2 by (rule outcomeReported_seq)
  have mono: "\<And>k md. map_of (m_pluginMetadata s1) k = Some md \<Longrightarrow> map_of (m_pluginMetadata s2) k = Some md"
    using g2 by (simp add: grows_def)
  have w: "wellFormed s2 \<and> (\<forall>k. m_pluginStates s k = Active \<longrightarrow> m_pluginStates s2 k = Active) \<and>
      (\<forall>e \<in> set (newEvents s s2). activatedWithDependencies (m_pluginMetadata s2) e)"
    if wf: "wellFormed s"
  proof (intro conjI ballI)
    from a wf have wf1: "wellFormed s1" by (simp add: lifecycle_def)
    with b show "wellFormed s2" by (simp add: lifecycle_def)
    from a b wf wf1 show "\<forall>k. m_pluginStates s k = Active \<longrightarrow> m_pluginStates s2 k = Active"
      by (simp add: lifecycle_def)
    fix e assume "e \<in> set (newEvents s s2)"
    then consider "e \<in> set (newEvents s s1)" | "e \<in> set (newEvents s1 s2)"
      unfolding ev by auto
    then show "activatedWithDependencies (m_pluginMetadata s2) e"
    proof cases
      case 1
      with a wf have "activatedWithDependencies (m_pluginMetadata s1) e" by (simp add: lifecycle_def)
      then show ?thesis using mono by (rule activatedWithDependencies_mono)
    next
      case 2
      with b wf1 show ?thesis by (simp add: lifecycle_def)
    qed
  qed
  have sg: "signalled (m_pluginStates s) (newEvents s s2) (m_pluginStates s2)"
    unfolding ev using a b by (intro signalled_seq [of _ _ "m_pluginStates s1"]) (simp_all add: lifecycle_def)
  show ?thesis unfolding lifecycle_def using g w o sg by blast
qed

lemma grows_failPlugin [simp]: "grows s (failPlugin p m s)"
  by (simp add: grows_def)

lemma newEvents_failPlugin:
  "grows s s1 \<Longrightarrow> newEvents s (failPlugin p m s1) = newEvents s s1 @ [Emit (pluginFailed p m)]"
  by (auto simp: newEvents_def grows_def)

lemma lifecycle_failed:
  assumes a: "lifecycle s r s1" and p: "wellFormed s \<longrightarrow> m_pluginStates s p \<noteq> Active"
  shows "lifecycle s False (failPlugin p m s1)"
proof -
  from a have g1: "grows s s1" by (simp add: lifecycle_def)
  have g: "grows s (failPlugin p m s1)"
    using g1 grows_failPlugin by (rule grows_trans)
  have ev: "newEvents s (failPlugin p m s1) = newEvents s s1 @ [Emit (pluginFailed p m)]"
    using g1 by (rule newEvents_failPlugin)
  from a have "outcomeReported r (m_pluginStates s1) (newEvents s s1)" by (simp add: lifecycle_def)
  then have o: "outcomeReported False (m_pluginStates (failPlugin p m s1)) (newEvents s (failPlugin p m s1))"
    unfolding ev by (simp add: outcomeReported_failed)
  from a p have w: "wellFormed s \<longrightarrow> wellFormed (failPlugin p m s1) \<and>
      (\<forall>k. m_pluginStates s k = Active \<longrightarrow> m_pluginStates (failPlugin p m s1) k = Active) \<and>
      (\<forall>e \<in> set (newEvents s (failPlugin p m s1)).
          activatedWithDependencies (m_pluginMetadata (failPlugin p m s1)) e)"
    unfolding ev by (auto simp: lifecycle_def wellFormed_def)
  have "signalled (m_pluginStates s1) [Emit (pluginFailed p m)] (m_pluginStates (failPlugin p m s1))"
    by (rule signalled_signal) (auto split: if_splits)
  with a have sg: "signalled (m_pluginStates s) (newEvents s (failPlugin p m s1)) (m_pluginStates (failPlugin p m s1))"
    unfolding ev by (intro signalled_seq [of _ _ "m_pluginStates s1"]) (simp_all add: lifecycle_def)
  show ?thesis unfolding lifecycle_def using g w o sg by blast
qed

lemma noNewActive_refl [simp]: "noNewActive s s"
  by (simp add: noNewActive_def)

lemma noNewActive_trans:
  assumes "grows s s1" "grows s1 s2" "noNewActive s s1" "noNewActive s1 s2"
  shows "noNewActive s s2"
  using assms newEvents_append [OF assms(1,2)] unfolding noNewActive_def by auto

lemma noNewActive_failed:
  assumes "grows s s1" "noNewActive s s1"
  shows "noNewActive s (failPlugin p m s1)"
  using assms newEvents_failPlugin [OF assms(1)] unfolding noNewActive_def by auto

text \<open>Steps that only add registry entries.\<close>

lemma registry_step:
  assumes "metadata_only s s'"
    and "\<And>k md. map_of (m_pluginMetadata s) k = Some md \<Longrightarrow> map_of (m_pluginMetadata s') k = Some md"
  shows "lifecycle s r s' \<and> noNewActive s s'"
proof -
  from assms(1) obtain reg where s': "s' = s\<lparr> m_pluginMetadata := reg \<rparr>"
    unfolding metadata_only_def by blast
  with assms(2) show ?thesis
    by (simp add: lifecycle_def noNewActive_def grows_def newEvents_def outcomeReported_def wellFormed_def)
qed

subsection \<open>Steps on the metadata registry\<close>

lemma metadataRef_registry:
  "map_of (m_pluginMetadata s) k = Some md \<Longrightarrow> map_of (m_pluginMetadata (snd (metadataRef i s))) k = Some md"
  by (auto simp: metadataRef_def split: option.splits)

lemma metadataRef_present:
  "map_of (m_pluginMetadata (snd (metadataRef i s))) i = Some (fst (metadataRef i s))"
  by (auto simp: metadataRef_def split: option.splits)

lemma metadataRef_step [simp]:
  "lifecycle s r (snd (metadataRef i s))" "noNewActive s (snd (metadataRef i s))"
  using registry_step [OF metadataRef_only [of s i] metadataRef_registry] by blast+

lemma loadPluginMetadata_registry:
  "\<not> qmap_contains (m_pluginMetadata s) i \<Longrightarrow> map_of (m_pluginMetadata s) k = Some md \<Longrightarrow>
   map_of (m_pluginMetadata (snd (loadPluginMetadata env i s))) k = Some md"
  by (auto simp: loadPluginMetadata_def qmap_contains_def Let_def case_prod_beta split: option.splits)

lemma ensureMetadata_only [simp]: "metadata_only s (snd (ensureMetadata env i s))"
  by (simp add: ensureMetadata_def)

lemma ensureMetadata_registry:
  "map_of (m_pluginMetadata s) k = Some md \<Longrightarrow>
   map_of (m_pluginMetadata (snd (ensureMetadata env i s))) k = Some md"
  by (simp add: ensureMetadata_def loadPluginMetadata_registry)

lemma checkDependencies_unfold:
  "checkDependencies env (d # ds) s =
     (if \<not> fst (ensureMetadata env d s) then (False, snd (ensureMetadata env d s))
      else if \<not> isCompatibleWithFramework (fst (metadataRef d (snd (ensureMetadata env d s)))) m_frameworkVersion
      then (False, snd (metadataRef d (snd (ensureMetadata env d s))))
      else checkDependencies env ds (snd (metadataRef d (snd (ensureMetadata env d s)))))"
  by (simp add: ensureMetadata_def Let_def case_prod_beta)

lemma checkDependencies_registry:
  "map_of (m_pluginMetadata s) k = Some md \<Longrightarrow>
   map_of (m_pluginMetadata (snd (checkDependencies env ds s))) k = Some md"
proof (induction ds arbitrary: s)
  case Nil
  then show ?case by simp
next
  case (Cons d ds)
  have a: "map_of (m_pluginMetadata (snd (metadataRef d (snd (ensureMetadata env d s))))) k = Some md"
    using Cons.prems by (intro metadataRef_registry ensureMetadata_registry)
  show ?case
    unfolding checkDependencies_unfold
    using a Cons.IH [OF a] Cons.prems
    by (simp add: ensureMetadata_registry)
qed

lemma checkPluginDependencies_registry:
  "map_of (m_pluginMetadata s) k = Some md \<Longrightarrow>
   map_of (m_pluginMetadata (snd (checkPluginDependencies env i s))) k = Some md"
  by (simp add: checkPluginDependencies_def Let_def case_prod_beta checkDependencies_registry metadataRef_registry)

lemma ensureMetadata_step [simp]:
  "lifecycle s r (snd (ensureMetadata env i s))" "noNewActive s (snd (ensureMetadata env i s))"
  using registry_step [OF ensureMetadata_only [of s env i] ensureMetadata_registry] by blast+

lemma checkPluginDependencies_step [simp]:
  "lifecycle s r (snd (checkPluginDependencies env i s))"
  "noNewActive s (snd (checkPluginDependencies env i s))"
  using registry_step [OF checkPluginDependencies_only [of s env i] checkPluginDependencies_registry] by blast+

lemmas metadataRef_fields [simp] = metadata_only_fields [OF metadataRef_only]
lemmas loadPluginMetadata_fields [simp] = metadata_only_fields [OF loadPluginMetadata_only]
lemmas ensureMetadata_fields [simp] = metadata_only_fields [OF ensureMetadata_only]
lemmas checkDependencies_fields [simp] = metadata_only_fields [OF checkDependencies_only]
lemmas checkPluginDependencies_fields [simp] = metadata_only_fields [OF checkPluginDependencies_only]

subsection \<open>loadPlugin\<close>

lemma loadLibrary_signalled:
  "signalled (m_pluginStates s) (newEvents s (snd (loadLibrary env i path s)))
     (m_pluginStates (snd (loadLibrary env i path s)))"
proof (cases "libraries env path")
  case None
  then show ?thesis
    by (intro signalled_no_hooks) (auto simp: loadLibrary_def newEvents_def split: if_splits)
next
  case (Some lib)
  then show ?thesis
    by (cases lib; intro signalled_no_hooks)
       (auto simp: loadLibrary_def newEvents_def loaderUnload_def Let_def split: if_splits)
qed

lemma loadLibrary_step:
  assumes "map_of (m_plugins s) i = None"
  shows "lifecycle s (fst (loadLibrary env i path s)) (snd (loadLibrary env i path s)) \<and>
         noNewActive s (snd (loadLibrary env i path s))"
proof (cases "libraries env path")
  case None
  with assms loadLibrary_signalled [of s env i path] show ?thesis
    by (auto simp: loadLibrary_def lifecycle_def noNewActive_def grows_def newEvents_def
        outcomeReported_def wellFormed_def)
next
  case (Some lib)
  with assms loadLibrary_signalled [of s env i path] show ?thesis
    by (cases lib)
       (auto simp: loadLibrary_def lifecycle_def noNewActive_def grows_def newEvents_def
          outcomeReported_def wellFormed_def loaderUnload_def Let_def)
qed

lemma loadPlugin_unfold:
  "loadPlugin env i s =
     (if \<not> m_initialized s then (False, s)
      else if isPluginLoaded s i then (True, s)
      else if \<not> fst (ensureMetadata env i s) then (False, snd (ensureMetadata env i s))
      else if \<not> isCompatibleWithFramework (fst (metadataRef i (snd (ensureMetadata env i s)))) m_frameworkVersion
      then (False, failPlugin i (''Incompatible with framework version '' @ m_frameworkVersion)
                     (snd (metadataRef i (snd (ensureMetadata env i s)))))
      else if \<not> fst (checkPluginDependencies env i (snd (metadataRef i (snd (ensureMetadata env i s)))))
      then (False, failPlugin i ''Unsatisfied dependencies''
                     (snd (checkPluginDependencies env i (snd (metadataRef i (snd (ensureMetadata env i s)))))))
      else loadLibrary env i
             (resolvePluginPath env (getPluginId (fst (metadataRef i (snd (ensureMetadata env i s))))))
             (snd (checkPluginDependencies env i (snd (metadataRef i (snd (ensureMetadata env i s)))))))"
  by (simp add: loadPlugin_def ensureMetadata_def Let_def case_prod_beta)

lemma loadPlugin_step:
  "lifecycle s (fst (loadPlugin env i s)) (snd (loadPlugin env i s)) \<and>
   noNewActive s (snd (loadPlugin env i s))"
proof (cases "m_initialized s \<and> \<not> isPluginLoaded s i")
  case False
  then show ?thesis by (auto simp: loadPlugin_unfold)
next
  case True
  then have none: "map_of (m_plugins s) i = None"
    by (auto simp: isPluginLoaded_def qmap_contains_def)
  then have na: "wellFormed s \<longrightarrow> m_pluginStates s i \<noteq> Active"
    by (auto simp: wellFormed_def)
  define s0 where "s0 = snd (ensureMetadata env i s)"
  define s1 where "s1 = snd (metadataRef i s0)"
  define s2 where "s2 = snd (checkPluginDependencies env i s1)"
  have l0: "lifecycle s True s0" and n0: "noNewActive s s0" by (simp_all add: s0_def)
  have l1: "lifecycle s0 True s1" and n1: "noNewActive s0 s1" by (simp_all add: s1_def)
  have l2: "lifecycle s1 True s2" and n2: "noNewActive s1 s2" by (simp_all add: s2_def)
  have l01: "lifecycle s True s1" using l0 l1 by (rule lifecycle_seq)
  have l02: "lifecycle s True s2" using l01 l2 by (rule lifecycle_seq)
  have g0: "grows s s0" and g1: "grows s0 s1" and g2: "grows s1 s2"
    using l0 l1 l2 by (simp_all add: lifecycle_def)
  have g01: "grows s s1" using g0 g1 by (rule grows_trans)
  have g02: "grows s s2" using g01 g2 by (rule grows_trans)
  have n01: "noNewActive s s1" using g0 g1 n0 n1 by (rule noNewActive_trans)
  have n02: "noNewActive s s2" using g01 g2 n01 n2 by (rule noNewActive_trans)
  have p2: "map_of (m_plugins s2) i = None"
    using none metadata_only_fields(2) [of s s0] metadata_only_fields(2) [of s0 s1]
      metadata_only_fields(2) [of s1 s2]
    by (simp add: s0_def s1_def s2_def)
  have lf: "\<And>r. lifecycle s r s0" by (simp add: s0_def)
  note lib = loadLibrary_step [OF p2, of env "resolvePluginPath env (getPluginId (fst (metadataRef i s0)))"]
  have g3: "grows s2 (snd (loadLibrary env i (resolvePluginPath env (getPluginId (fst (metadataRef i s0)))) s2))"
    using lib by (simp add: lifecycle_def)
  show ?thesis
    using True lf n0 lifecycle_failed [OF l01 na] lifecycle_failed [OF l02 na]
      noNewActive_failed [OF g01 n01] noNewActive_failed [OF g02 n02]
      lifecycle_seq [OF l02 conjunct1 [OF lib]]
      noNewActive_trans [OF g02 g3 n02 conjunct2 [OF lib]]
    unfolding loadPlugin_unfold s0_def [symmetric] s1_def [symmetric] s2_def [symmetric]
    by (simp add: s0_def [symmetric] s1_def [symmetric] s2_def [symmetric])
qed

subsection \<open>initializePlugin\<close>

lemma reported_single:
  assumes "failedHook (HookCall x h out snap)" "st x = Failed"
  shows "reported st [HookCall x h out snap, Emit (pluginFailed x (failureMessage h out))]"
  unfolding reported_def
  using assms
  by (intro exI [of _ "[]"] exI [of _ x] exI [of _ h] exI [of _ out] exI [of _ snap]) simp

lemma initializeHook_cases:
  assumes "initializeHook env i s = Some (r, s')"
  obtains plugin where "map_of (m_plugins s) i = Some plugin"
    "r = (hooks env (trace s) plugin Initialize = Returns True)"
    "s' = (if r then emit (pluginInitialized i) (setState i Initialized (snd (invokeHook env i plugin Initialize s)))
           else failPlugin i (initializeFailure (hooks env (trace s) plugin Initialize))
                  (snd (invokeHook env i plugin Initialize s)))"
  using assms
  by (auto simp: initializeHook_def case_prod_beta Let_def split: option.splits if_splits)

lemma initializeHook_step:
  assumes h: "initializeHook env i s = Some (r, s')" and na: "m_pluginStates s i \<noteq> Active"
  shows "lifecycle s r s' \<and> noNewActive s s'"
proof -
  from h obtain plugin where p: "map_of (m_plugins s) i = Some plugin"
    and r: "r = (hooks env (trace s) plugin Initialize = Returns True)"
    and s': "s' = (if r then emit (pluginInitialized i) (setState i Initialized (snd (invokeHook env i plugin Initialize s)))
           else failPlugin i (initializeFailure (hooks env (trace s) plugin Initialize))
                  (snd (invokeHook env i plugin Initialize s)))"
    by (rule initializeHook_cases)
  let ?out = "hooks env (trace s) plugin Initialize"
  have ev: "newEvents s s' = [HookCall i Initialize ?out (m_pluginStates s),
      (if r then Emit (pluginInitialized i) else Emit (pluginFailed i (failureMessage Initialize ?out)))]"
    using s' by (simp add: newEvents_def)
  have sg: "signalled (m_pluginStates s) (newEvents s s') (m_pluginStates s')"
    unfolding ev using s' by (intro signalled_hook) (auto split: if_splits)
  show ?thesis
  proof (cases r)
    case True
    with r s' na sg show ?thesis
      by (auto simp: lifecycle_def noNewActive_def grows_def newEvents_def outcomeReported_def
          wellFormed_def)
  next
    case False
    from False r s' have "reported (m_pluginStates s')
        [HookCall i Initialize ?out (m_pluginStates s), Emit (pluginFailed i (failureMessage Initialize ?out))]"
      by (intro reported_single) simp_all
    with False have "reported (m_pluginStates s') (newEvents s s')"
      unfolding ev by simp
    with False s' na ev sg show ?thesis
      by (auto simp: lifecycle_def noNewActive_def grows_def outcomeReported_def wellFormed_def)
  qed
qed

lemma initializeDependencies_lifecycle:
  assumes IH: "\<And>i s r s'. initializePlugin n env i s = Some (r, s') \<Longrightarrow> lifecycle s r s' \<and> noNewActive s s'"
  shows "initializeDependencies n env p ds s = Some (r, s') \<Longrightarrow> m_pluginStates s p \<noteq> Active \<Longrightarrow>
         lifecycle s r s' \<and> noNewActive s s'"
proof (induction ds arbitrary: s)
  case Nil
  then show ?case by simp
next
  case (Cons d ds)
  define s1 where "s1 = (if \<not> isPluginLoaded s d then snd (loadPlugin env d s) else s)"
  have l1: "lifecycle s (isPluginLoaded s d \<or> fst (loadPlugin env d s)) s1" and n1: "noNewActive s s1"
    using loadPlugin_step [of s env d] by (auto simp: s1_def)
  have g1: "grows s s1" using l1 by (simp add: lifecycle_def)
  have na1: "m_pluginStates s1 p \<noteq> Active"
    using n1 Cons.prems(2) by (auto simp: noNewActive_def)
  from Cons.prems(1) show ?case
  proof (cases rule: initializeDependencies_cases)
    case load_failed
    with l1 n1 g1 Cons.prems(2) show ?thesis
      using lifecycle_failed [of s False s1 p] noNewActive_failed [of s s1 p]
      by (simp add: s1_def)
  next
    case skip
    then have rest: "initializeDependencies n env p ds s1 = Some (r, s')" and ok: "lifecycle s True s1"
      using l1 by (simp_all add: s1_def)
    from Cons.IH [OF rest na1] have l2: "lifecycle s1 r s'" and n2: "noNewActive s1 s'" by simp_all
    have g2: "grows s1 s'" using l2 by (simp add: lifecycle_def)
    show ?thesis
      using lifecycle_seq [OF ok l2] noNewActive_trans [OF g1 g2 n1 n2] by simp
  next
    case (init_failed s2)
    then have i: "initializePlugin n env d s1 = Some (False, s2)" and ok: "lifecycle s True s1"
      and s': "s' = failPlugin p (''Failed to initialize dependency: '' @ d) s2" and r: "\<not> r"
      using l1 by (simp_all add: s1_def)
    from IH [OF i] have l2: "lifecycle s1 False s2" and n2: "noNewActive s1 s2" by simp_all
    have g2: "grows s1 s2" using l2 by (simp add: lifecycle_def)
    have l: "lifecycle s False s2" using ok l2 by (rule lifecycle_seq)
    have n: "noNewActive s s2" using g1 g2 n1 n2 by (rule noNewActive_trans)
    have g: "grows s s2" using g1 g2 by (rule grows_trans)
    show ?thesis
      unfolding s' using r lifecycle_failed [OF l, of p] noNewActive_failed [OF g n] Cons.prems(2)
      by simp
  next
    case (init_ok s2)
    then have i: "initializePlugin n env d s1 = Some (True, s2)" and ok: "lifecycle s True s1"
      and rest: "initializeDependencies n env p ds s2 = Some (r, s')"
      using l1 by (simp_all add: s1_def)
    from IH [OF i] have l2: "lifecycle s1 True s2" and n2: "noNewActive s1 s2" by simp_all
    have g2: "grows s1 s2" using l2 by (simp add: lifecycle_def)
    have l: "lifecycle s True s2" using ok l2 by (rule lifecycle_seq)
    have n: "noNewActive s s2" using g1 g2 n1 n2 by (rule noNewActive_trans)
    have g: "grows s s2" using g1 g2 by (rule grows_trans)
    have na2: "m_pluginStates s2 p \<noteq> Active"
      using n Cons.prems(2) by (auto simp: noNewActive_def)
    from Cons.IH [OF rest na2] have l3: "lifecycle s2 r s'" and n3: "noNewActive s2 s'" by simp_all
    have g3: "grows s2 s'" using l3 by (simp add: lifecycle_def)
    show ?thesis
      using lifecycle_seq [OF l l3] noNewActive_trans [OF g g3 n n3] by simp
  qed
qed

lemma initializePlugin_lifecycle:
  "initializePlugin n env i s = Some (r, s') \<Longrightarrow> lifecycle s r s' \<and> noNewActive s s'"
proof (induction n arbitrary: i s r s')
  case 0
  then show ?case by simp
next
  case (Suc n)
  have loop: "lifecycle t r' t' \<and> noNewActive t t'"
    if "initializeDependencies n env p ds t = Some (r', t')" "m_pluginStates t p \<noteq> Active"
    for p ds t r' t'
    by (rule initializeDependencies_lifecycle [OF _ that]) (rule Suc.IH)
  define s0 where "s0 = snd (metadataRef i s)"
  have l0: "lifecycle s True s0" and n0: "noNewActive s s0" by (simp_all add: s0_def)
  have g0: "grows s s0" using l0 by (simp add: lifecycle_def)
  from Suc.prems show ?case
  proof (cases rule: initializePlugin_cases)
    case early
    then show ?thesis by simp
  next
    case (failed m)
    then have d: "initializeDependencies n env i (getPluginDependencies (fst (metadataRef i s))) s0 = Some (False, s')"
      and na: "m_pluginStates s0 i \<noteq> Active" and r: "\<not> r"
      by (simp_all add: s0_def)
    from loop [OF d na] have l1: "lifecycle s0 False s'" and n1: "noNewActive s0 s'" by simp_all
    have g1: "grows s0 s'" using l1 by (simp add: lifecycle_def)
    show ?thesis using r lifecycle_seq [OF l0 l1] noNewActive_trans [OF g0 g1 n0 n1] by simp
  next
    case (hook m s1)
    then have d: "initializeDependencies n env i (getPluginDependencies (fst (metadataRef i s))) s0 = Some (True, s1)"
      and na: "m_pluginStates s0 i \<noteq> Active" and h: "initializeHook env i s1 = Some (r, s')"
      by (simp_all add: s0_def)
    from loop [OF d na] have l1: "lifecycle s0 True s1" and n1: "noNewActive s0 s1" by simp_all
    have g1: "grows s0 s1" using l1 by (simp add: lifecycle_def)
    have l01: "lifecycle s True s1" using l0 l1 by (rule lifecycle_seq)
    have n01: "noNewActive s s1" using g0 g1 n0 n1 by (rule noNewActive_trans)
    have g01: "grows s s1" using g0 g1 by (rule grows_trans)
    have na1: "m_pluginStates s1 i \<noteq> Active" using n1 na by (auto simp: noNewActive_def)
    from initializeHook_step [OF h na1] have l2: "lifecycle s1 r s'" and n2: "noNewActive s1 s'" by simp_all
    have g2: "grows s1 s'" using l2 by (simp add: lifecycle_def)
    show ?thesis using lifecycle_seq [OF l01 l2] noNewActive_trans [OF g01 g2 n01 n2] by simp
  qed
qed

subsection \<open>Case analysis of activatePlugin\<close>

lemma activatePlugin_cases:
  assumes "activatePlugin k env i s = Some (r, s')"
  defines "s1 \<equiv> \<lambda>s0. snd (metadataRef i s0)"
  defines "deps \<equiv> \<lambda>s0. getPluginDependencies (fst (metadataRef i s0))"
  obtains (early) "s' = s" "r = (m_initialized s \<and> isPluginLoaded s i \<and> m_pluginStates s i = Active)"
      "\<not> (m_initialized s \<and> isPluginLoaded s i \<and> m_pluginStates s i \<noteq> Active \<and> m_pluginStates s i \<noteq> Failed)"
  | (init_failed) n where "k = Suc n" "m_initialized s" "isPluginLoaded s i"
      "m_pluginStates s i \<noteq> Active" "m_pluginStates s i \<noteq> Failed" "m_pluginStates s i \<noteq> Initialized"
      "initializePlugin n env i s = Some (False, s')" "\<not> r"
  | (deps_failed) n s0 where "k = Suc n" "m_initialized s" "isPluginLoaded s i"
      "m_pluginStates s i \<noteq> Active" "m_pluginStates s i \<noteq> Failed"
      "if m_pluginStates s i \<noteq> Initialized then initializePlugin n env i s = Some (True, s0) else s0 = s"
      "activateDependencies n env (deps s0) (s1 s0) = Some (False, s')" "\<not> r"
  | (hook) n s0 s2 where "k = Suc n" "m_initialized s" "isPluginLoaded s i"
      "m_pluginStates s i \<noteq> Active" "m_pluginStates s i \<noteq> Failed"
      "if m_pluginStates s i \<noteq> Initialized then initializePlugin n env i s = Some (True, s0) else s0 = s"
      "activateDependencies n env (deps s0) (s1 s0) = Some (True, s2)"
      "activateHook env i s2 = Some (r, s')"
proof (cases k)
  case 0
  with assms show ?thesis by simp
next
  case (Suc n)
  show ?thesis
  proof (cases "m_initialized s \<and> isPluginLoaded s i \<and> m_pluginStates s i \<noteq> Active \<and> m_pluginStates s i \<noteq> Failed")
    case False
    with assms Suc have "s' = s" and "r = (m_initialized s \<and> isPluginLoaded s i \<and> m_pluginStates s i = Active)"
      by (auto split: if_splits)
    with False show ?thesis by (intro early) simp_all
  next
    case True
    let ?I = "if m_pluginStates s i \<noteq> Initialized then initializePlugin n env i s else Some (True, s)"
    show ?thesis
    proof (cases ?I)
      case None
      with True assms(1) Suc show ?thesis by (simp split: if_splits)
    next
      case (Some res)
      obtain initialized s0 where res: "res = (initialized, s0)" by (cases res)
      show ?thesis
      proof (cases initialized)
        case False
        with Some res True assms(1) Suc show ?thesis
          by (intro init_failed [of n]) (auto split: if_splits)
      next
        case init: True
        with Some res have s0: "if m_pluginStates s i \<noteq> Initialized then initializePlugin n env i s = Some (True, s0) else s0 = s"
          by (auto split: if_splits)
        from Some res init True assms(1) Suc
        have eq2: "(case activateDependencies n env (deps s0) (s1 s0) of
                      None \<Rightarrow> None
                    | Some (ok, s2) \<Rightarrow> if \<not> ok then Some (False, s2) else activateHook env i s2) = Some (r, s')"
          by (simp add: case_prod_beta Let_def s1_def deps_def)
        show ?thesis
        proof (cases "activateDependencies n env (deps s0) (s1 s0)")
          case None
          with eq2 show ?thesis by simp
        next
          case (Some res2)
          obtain ok s2 where res2: "res2 = (ok, s2)" by (cases res2)
          show ?thesis
          proof (cases ok)
            case False
            with Some res2 eq2 True Suc s0 show ?thesis
              by (intro deps_failed [of n s0]) auto
          next
            case ok: True
            with Some res2 eq2 True Suc s0 show ?thesis
              by (intro hook [of n s0 s2]) auto
          qed
        qed
      qed
    qed
  qed
qed

lemma activateDependencies_cases:
  assumes "activateDependencies n env (d # ds) s = Some (r, s')"
  obtains (skip) "m_pluginStates s d = Active" "activateDependencies n env ds s = Some (r, s')"
  | (failed) "m_pluginStates s d \<noteq> Active" "activatePlugin n env d s = Some (False, s')" "\<not> r"
  | (ok) s1 where "m_pluginStates s d \<noteq> Active" "activatePlugin n env d s = Some (True, s1)"
      "activateDependencies n env ds s1 = Some (r, s')"
proof (cases "m_pluginStates s d = Active")
  case True
  with assms show ?thesis by (intro skip) auto
next
  case False
  with assms
  have eq: "(case activatePlugin n env d s of None \<Rightarrow> None
             | Some (ok, s1) \<Rightarrow> if \<not> ok then Some (False, s1) else activateDependencies n env ds s1)
            = Some (r, s')"
    by simp
  show ?thesis
  proof (cases "activatePlugin n env d s")
    case None
    with eq show ?thesis by simp
  next
    case (Some res)
    obtain ok' s1 where res: "res = (ok', s1)" by (cases res)
    show ?thesis
    proof (cases ok')
      case True
      with Some res eq False show ?thesis by (intro ok [of s1]) auto
    next
      case nok: False
      with Some res eq False show ?thesis by (intro failed) auto
    qed
  qed
qed

lemma activateHook_cases:
  assumes "activateHook env i s = Some (r, s')"
  obtains plugin where "map_of (m_plugins s) i = Some plugin"
    "r = (hooks env (trace s) plugin Activate = Returns True)"
    "s' = s\<lparr> m_pluginStates := (m_pluginStates s)(i := if r then Active else Failed),
             trace := trace s @ [HookCall i Activate (hooks env (trace s) plugin Activate) (m_pluginStates s),
                        Emit (if r then pluginActivated i
                              else pluginFailed i (activateFailure (hooks env (trace s) plugin Activate)))] \<rparr>"
  using assms
  by (auto simp: activateHook_def invokeHook_def failPlugin_def emit_def setState_def
      case_prod_beta Let_def split: option.splits if_splits)

subsection \<open>activatePlugin\<close>

lemma activateHook_lifecycle:
  assumes l: "lifecycle s True s2" and na: "m_pluginStates s i \<noteq> Active"
    and h: "activateHook env i s2 = Some (r, s')"
    and deps: "wellFormed s \<longrightarrow> (\<exists>md. map_of (m_pluginMetadata s2) i = Some md \<and>
                 (\<forall>d \<in> set (getPluginDependencies md). m_pluginStates s2 d = Active))"
  shows "lifecycle s r s' \<and> (r \<longrightarrow> m_pluginStates s' i = Active)"
proof -
  from h obtain plugin where p: "map_of (m_plugins s2) i = Some plugin"
    and r: "r = (hooks env (trace s2) plugin Activate = Returns True)"
    and s': "s' = s2\<lparr> m_pluginStates := (m_pluginStates s2)(i := if r then Active else Failed),
             trace := trace s2 @ [HookCall i Activate (hooks env (trace s2) plugin Activate) (m_pluginStates s2),
                        Emit (if r then pluginActivated i
                              else pluginFailed i (activateFailure (hooks env (trace s2) plugin Activate)))] \<rparr>"
    by (rule activateHook_cases)
  let ?out = "hooks env (trace s2) plugin Activate"
  let ?hook = "[HookCall i Activate ?out (m_pluginStates s2),
               Emit (if r then pluginActivated i else pluginFailed i (activateFailure ?out))]"
  from l have g1: "grows s s2" by (simp add: lifecycle_def)
  have g2: "grows s2 s'" unfolding s' by (simp add: grows_def)
  have g: "grows s s'" using g1 g2 by (rule grows_trans)
  have ev2: "newEvents s2 s' = ?hook" unfolding s' by (simp add: newEvents_def)
  have ev: "newEvents s s' = newEvents s s2 @ ?hook"
    using newEvents_append [OF g1 g2] ev2 by simp
  have o2: "outcomeReported r (m_pluginStates s') ?hook"
  proof (cases r)
    case True
    with r show ?thesis by (simp add: outcomeReported_def)
  next
    case False
    with r have "reported (m_pluginStates s')
        [HookCall i Activate ?out (m_pluginStates s2), Emit (pluginFailed i (failureMessage Activate ?out))]"
      unfolding s' by (intro reported_single) simp_all
    with False show ?thesis by (simp add: outcomeReported_def)
  qed
  from l have "outcomeReported True (m_pluginStates s2) (newEvents s s2)" by (simp add: lifecycle_def)
  then have o: "outcomeReported r (m_pluginStates s') (newEvents s s')"
    unfolding ev using o2 by (rule outcomeReported_seq)
  have w: "wellFormed s' \<and> (\<forall>k. m_pluginStates s k = Active \<longrightarrow> m_pluginStates s' k = Active) \<and>
      (\<forall>e \<in> set (newEvents s s'). activatedWithDependencies (m_pluginMetadata s') e)"
    if wf: "wellFormed s"
  proof (intro conjI)
    from l wf have wf2: "wellFormed s2" and act: "\<forall>k. m_pluginStates s k = Active \<longrightarrow> m_pluginStates s2 k = Active"
      and evs: "\<forall>e \<in> set (newEvents s s2). activatedWithDependencies (m_pluginMetadata s2) e"
      by (simp_all add: lifecycle_def)
    from wf2 p show "wellFormed s'" unfolding s' by (auto simp: wellFormed_def)
    from act na show "\<forall>k. m_pluginStates s k = Active \<longrightarrow> m_pluginStates s' k = Active"
      unfolding s' by auto
    from deps wf evs show "\<forall>e \<in> set (newEvents s s'). activatedWithDependencies (m_pluginMetadata s') e"
      unfolding ev by (auto simp: s')
  qed
  have "signalled (m_pluginStates s2) ?hook (m_pluginStates s')"
    unfolding s' by (intro signalled_hook) (auto split: if_splits)
  with l have sg: "signalled (m_pluginStates s) (newEvents s s') (m_pluginStates s')"
    unfolding ev by (intro signalled_seq [of _ _ "m_pluginStates s2"]) (simp_all add: lifecycle_def)
  have "r \<longrightarrow> m_pluginStates s' i = Active" unfolding s' by simp
  then show ?thesis unfolding lifecycle_def using g o w sg by blast
qed

lemma activateDependencies_lifecycle:
  assumes IH: "\<And>i s r s'. activatePlugin n env i s = Some (r, s') \<Longrightarrow>
                 lifecycle s r s' \<and> (r \<longrightarrow> m_pluginStates s' i = Active)"
  shows "activateDependencies n env ds s = Some (r, s') \<Longrightarrow>
         lifecycle s r s' \<and> (wellFormed s \<longrightarrow> r \<longrightarrow> (\<forall>d \<in> set ds. m_pluginStates s' d = Active))"
proof (induction ds arbitrary: s)
  case Nil
  then show ?case by simp
next
  case (Cons d ds)
  from Cons.prems show ?case
  proof (cases rule: activateDependencies_cases)
    case skip
    from Cons.IH [OF skip(2)] have l: "lifecycle s r s'"
      and a: "wellFormed s \<longrightarrow> r \<longrightarrow> (\<forall>d \<in> set ds. m_pluginStates s' d = Active)" by simp_all
    from l skip(1) have "wellFormed s \<longrightarrow> m_pluginStates s' d = Active" by (simp add: lifecycle_def)
    with l a show ?thesis by simp
  next
    case failed
    from IH [OF failed(2)] failed(3) show ?thesis by simp
  next
    case (ok s1)
    from IH [OF ok(2)] have l1: "lifecycle s True s1" and d1: "m_pluginStates s1 d = Active" by simp_all
    from Cons.IH [OF ok(3)] have l2: "lifecycle s1 r s'"
      and a: "wellFormed s1 \<longrightarrow> r \<longrightarrow> (\<forall>d \<in> set ds. m_pluginStates s' d = Active)" by simp_all
    have l: "lifecycle s r s'" using l1 l2 by (rule lifecycle_seq)
    from l1 have wf1: "wellFormed s \<longrightarrow> wellFormed s1" by (simp add: lifecycle_def)
    from l2 d1 have "wellFormed s1 \<longrightarrow> m_pluginStates s' d = Active" by (simp add: lifecycle_def)
    with l a wf1 show ?thesis by simp
  qed
qed

lemma activatePlugin_lifecycle:
  "activatePlugin n env i s = Some (r, s') \<Longrightarrow> lifecycle s r s' \<and> (r \<longrightarrow> m_pluginStates s' i = Active)"
proof (induction n arbitrary: i s r s')
  case 0
  then show ?case by simp
next
  case (Suc n)
  have loop: "lifecycle t r' t' \<and> (wellFormed t \<longrightarrow> r' \<longrightarrow> (\<forall>d \<in> set ds. m_pluginStates t' d = Active))"
    if "activateDependencies n env ds t = Some (r', t')" for ds t r' t'
    by (rule activateDependencies_lifecycle [OF _ that]) (rule Suc.IH)
  from Suc.prems show ?case
  proof (cases rule: activatePlugin_cases)
    case early
    then show ?thesis by auto
  next
    case (init_failed m)
    with initializePlugin_lifecycle [of m env i s False s'] show ?thesis by simp
  next
    case (deps_failed m s0)
    then have m: "m = n" by simp
    have l0: "lifecycle s True s0"
      using deps_failed(6) initializePlugin_lifecycle [of m env i s True s0] by (auto split: if_splits)
    have l1: "lifecycle s0 True (snd (metadataRef i s0))" by simp
    from loop [OF deps_failed(7) [unfolded m]]
    have l2: "lifecycle (snd (metadataRef i s0)) False s'" by simp
    show ?thesis using deps_failed(8) lifecycle_seq [OF lifecycle_seq [OF l0 l1] l2] by simp
  next
    case (hook m s0 s2)
    then have m: "m = n" by simp
    let ?s1 = "snd (metadataRef i s0)"
    let ?md = "fst (metadataRef i s0)"
    have l0: "lifecycle s True s0"
      using hook(6) initializePlugin_lifecycle [of m env i s True s0] by (auto split: if_splits)
    have l1: "lifecycle s0 True ?s1" by simp
    have l01: "lifecycle s True ?s1" using l0 l1 by (rule lifecycle_seq)
    from loop [OF hook(7) [unfolded m]]
    have l2: "lifecycle ?s1 True s2"
      and a: "wellFormed ?s1 \<longrightarrow> (\<forall>d \<in> set (getPluginDependencies ?md). m_pluginStates s2 d = Active)"
      by simp_all
    have l: "lifecycle s True s2" using l01 l2 by (rule lifecycle_seq)
    have md: "map_of (m_pluginMetadata s2) i = Some ?md"
      using l2 metadataRef_present [of i s0] by (simp add: lifecycle_def grows_def)
    from l01 have "wellFormed s \<longrightarrow> wellFormed ?s1" by (simp add: lifecycle_def)
    with a md have deps: "wellFormed s \<longrightarrow> (\<exists>md. map_of (m_pluginMetadata s2) i = Some md \<and>
                 (\<forall>d \<in> set (getPluginDependencies md). m_pluginStates s2 d = Active))"
      by simp
    from l hook(4) hook(8) deps show ?thesis by (rule activateHook_lifecycle)
  qed
qed

subsection \<open>Case analysis of deactivatePlugin\<close>

lemma activeDependents_only [simp]: "metadata_only s (snd (activeDependents i ks s))"
proof (induction ks arbitrary: s)
  case Nil
  show ?case by simp
next
  case (Cons k ks)
  have "metadata_only s (snd (activeDependents i ks (snd (metadataRef k s))))"
    using metadataRef_only Cons.IH by (rule metadata_only_trans)
  with Cons.IH show ?case by (simp add: case_prod_beta Let_def)
qed

lemmas activeDependents_fields [simp] = metadata_only_fields [OF activeDependents_only]

lemma activeDependents_registry:
  "map_of (m_pluginMetadata s) k = Some md \<Longrightarrow>
   map_of (m_pluginMetadata (snd (activeDependents i ks s))) k = Some md"
proof (induction ks arbitrary: s)
  case Nil
  then show ?case by simp
next
  case (Cons k' ks)
  then show ?case by (simp add: case_prod_beta Let_def metadataRef_registry)
qed

text \<open>Every active, loaded plugin whose registry entry depends on the plugin is collected.\<close>

lemma activeDependents_complete:
  assumes "z \<in> set ks" "z \<noteq> i" "m_pluginStates s z = Active"
    "map_of (m_pluginMetadata s) z = Some md" "dependsOn md i"
  shows "z \<in> set (fst (activeDependents i ks s))"
  using assms
proof (induction ks arbitrary: s)
  case Nil
  then show ?case by simp
next
  case (Cons k ks)
  show ?case
  proof (cases "z = k")
    case True
    with Cons.prems have "fst (metadataRef k s) = md" by (simp add: metadataRef_def)
    with True Cons.prems show ?thesis by (simp add: case_prod_beta Let_def)
  next
    case False
    with Cons.prems have z: "z \<in> set ks" by simp
    have a: "z \<in> set (fst (activeDependents i ks s))"
      using Cons.IH [OF z Cons.prems(2,3,4,5)] .
    have b: "z \<in> set (fst (activeDependents i ks (snd (metadataRef k s))))"
      using Cons.IH [of "snd (metadataRef k s)"] z Cons.prems(2,3,4,5)
      by (simp add: metadataRef_registry)
    from a b show ?thesis by (simp add: case_prod_beta Let_def)
  qed
qed

text \<open>Every collected plugin is another key, active, with a registry entry that depends on the plugin.\<close>

lemma activeDependents_sound:
  assumes "z \<in> set (fst (activeDependents i ks s))"
  shows "z \<in> set ks \<and> z \<noteq> i \<and> m_pluginStates s z = Active \<and>
    (\<exists>md. map_of (m_pluginMetadata (snd (activeDependents i ks s))) z = Some md \<and> dependsOn md i)"
  using assms
proof (induction ks arbitrary: s)
  case Nil
  then show ?case by simp
next
  case (Cons k ks)
  show ?case
  proof (cases "k \<noteq> i \<and> m_pluginStates s k = Active")
    case False
    with Cons.prems have "z \<in> set (fst (activeDependents i ks s))" by auto
    from Cons.IH [OF this] False show ?thesis by auto
  next
    case True
    let ?s1 = "snd (metadataRef k s)"
    show ?thesis
    proof (cases "z \<in> set (fst (activeDependents i ks ?s1))")
      case z: True
      from Cons.IH [OF z] True show ?thesis by (auto simp: case_prod_beta Let_def)
    next
      case False
      with Cons.prems True have zk: "z = k" and d: "dependsOn (fst (metadataRef k s)) i"
        by (auto simp: case_prod_beta Let_def split: if_splits)
      have "map_of (m_pluginMetadata (snd (activeDependents i ks ?s1))) k = Some (fst (metadataRef k s))"
        using metadataRef_present [of k s] by (rule activeDependents_registry)
      with zk d True show ?thesis by (auto simp: case_prod_beta Let_def)
    qed
  qed
qed

lemma deactivatePlugin_cases:
  assumes "deactivatePlugin k env i s = Some (r, s')"
  defines "s0 \<equiv> snd (activeDependents i (qmap_keys (m_plugins s)) s)"
  defines "dependentPlugins \<equiv> fst (activeDependents i (qmap_keys (m_plugins s)) s)"
  obtains (early) "s' = s" "r = (m_initialized s \<and> isPluginLoaded s i)"
      "\<not> (m_initialized s \<and> isPluginLoaded s i \<and> m_pluginStates s i = Active)"
  | (failed) n where "k = Suc n" "m_initialized s" "isPluginLoaded s i" "m_pluginStates s i = Active"
      "deactivateDependents n env dependentPlugins s0 = Some (False, s')" "\<not> r"
  | (hook) n s1 where "k = Suc n" "m_initialized s" "isPluginLoaded s i" "m_pluginStates s i = Active"
      "deactivateDependents n env dependentPlugins s0 = Some (True, s1)"
      "deactivateHook env i s1 = Some (r, s')"
proof (cases k)
  case 0
  with assms show ?thesis by simp
next
  case (Suc n)
  show ?thesis
  proof (cases "m_initialized s \<and> isPluginLoaded s i \<and> m_pluginStates s i = Active")
    case False
    with assms(1) Suc have "s' = s" and "r = (m_initialized s \<and> isPluginLoaded s i)"
      by (auto split: if_splits)
    with False show ?thesis by (intro early) simp_all
  next
    case True
    from True assms(1) Suc
    have eq: "(case deactivateDependents n env dependentPlugins s0 of None \<Rightarrow> None
               | Some (ok, s1) \<Rightarrow> if \<not> ok then Some (False, s1) else deactivateHook env i s1) = Some (r, s')"
      by (simp add: case_prod_beta Let_def s0_def dependentPlugins_def)
    show ?thesis
    proof (cases "deactivateDependents n env dependentPlugins s0")
      case None
      with eq show ?thesis by simp
    next
      case (Some res)
      obtain ok s1 where res: "res = (ok, s1)" by (cases res)
      show ?thesis
      proof (cases ok)
        case False
        with Some res eq True Suc show ?thesis by (intro failed [of n]) auto
      next
        case ok: True
        with Some res eq True Suc show ?thesis by (intro hook [of n s1]) auto
      qed
    qed
  qed
qed

lemma deactivateDependents_cases:
  assumes "deactivateDependents n env (d # ds) s = Some (r, s')"
  obtains (failed) "deactivatePlugin n env d s = Some (False, s')" "\<not> r"
  | (ok) s1 where "deactivatePlugin n env d s = Some (True, s1)"
      "deactivateDependents n env ds s1 = Some (r, s')"
proof (cases "deactivatePlugin n env d s")
  case None
  with assms show ?thesis by simp
next
  case (Some res)
  obtain ok' s1 where res: "res = (ok', s1)" by (cases res)
  show ?thesis
  proof (cases ok')
    case True
    with Some res assms show ?thesis by (intro ok [of s1]) auto
  next
    case False
    with Some res assms show ?thesis by (intro failed) auto
  qed
qed

lemma deactivateHook_cases:
  assumes "deactivateHook env i s = Some (r, s')"
  obtains plugin where "map_of (m_plugins s) i = Some plugin"
    "r = (hooks env (trace s) plugin Deactivate = Returns True)"
    "s' = s\<lparr> m_pluginStates := (if r then (m_pluginStates s)(i := Initialized) else m_pluginStates s),
             trace := trace s @ HookCall i Deactivate (hooks env (trace s) plugin Deactivate) (m_pluginStates s)
                        # (if r then [Emit (pluginDeactivated i)] else []) \<rparr>"
  using assms
  by (auto simp: deactivateHook_def invokeHook_def emit_def setState_def
      case_prod_beta Let_def split: option.splits if_splits)

subsection \<open>Plugins whose deactivation is in progress\<close>

lemma steady_refl [simp]: "steady s s"
  by (simp add: steady_def)

lemma steady_trans: "steady s s1 \<Longrightarrow> steady s1 s2 \<Longrightarrow> steady s s2"
  unfolding steady_def using grows_trans by auto

lemma steady_grows: "steady s s' \<Longrightarrow> grows s s'"
  by (simp add: steady_def)

lemma activeDependents_steady [simp]: "steady s (snd (activeDependents i ks s))"
  by (simp add: steady_def grows_def activeDependents_registry)

lemma dependentOn_steady: "steady s s' \<Longrightarrow> dependentOn s z y \<Longrightarrow> dependentOn s' z y"
  unfolding steady_def grows_def dependentOn_def by auto

lemma deactivateHook_steady: "deactivateHook env i s = Some (r, s') \<Longrightarrow> steady s s'"
  by (erule deactivateHook_cases) (simp add: steady_def grows_def)

lemma deactivateDependents_steady:
  assumes IH: "\<And>i s r s'. deactivatePlugin n env i s = Some (r, s') \<Longrightarrow> steady s s'"
  shows "deactivateDependents n env ds s = Some (r, s') \<Longrightarrow> steady s s'"
proof (induction ds arbitrary: s)
  case Nil
  then show ?case by simp
next
  case (Cons d ds)
  from Cons.prems show ?case
  proof (cases rule: deactivateDependents_cases)
    case failed
    then show ?thesis using IH by blast
  next
    case (ok s1)
    from IH [OF ok(1)] Cons.IH [OF ok(2)] show ?thesis by (rule steady_trans)
  qed
qed

lemma deactivatePlugin_steady: "deactivatePlugin n env i s = Some (r, s') \<Longrightarrow> steady s s'"
proof (induction n arbitrary: i s r s')
  case 0
  then show ?case by simp
next
  case (Suc n)
  have loop: "steady t t'" if "deactivateDependents n env ds t = Some (r', t')" for ds t r' t'
    by (rule deactivateDependents_steady [OF _ that]) (rule Suc.IH)
  from Suc.prems show ?case
  proof (cases rule: deactivatePlugin_cases)
    case early
    then show ?thesis by simp
  next
    case (failed m)
    then have "steady (snd (activeDependents i (qmap_keys (m_plugins s)) s)) s'"
      using loop by simp
    with activeDependents_steady show ?thesis by (rule steady_trans)
  next
    case (hook m s1)
    then have "steady (snd (activeDependents i (qmap_keys (m_plugins s)) s)) s1"
      using loop by simp
    with activeDependents_steady have "steady s s1" by (rule steady_trans)
    then show ?thesis using deactivateHook_steady [OF hook(6)] by (rule steady_trans)
  qed
qed

text \<open>
  Plugins whose deactivation is in progress stay active: a call that would come back to one
  of them does not return success.
\<close>

lemma deactivateDependents_held:
  assumes IH: "\<And>c s s' St. deactivatePlugin n env c s = Some (True, s') \<Longrightarrow> held St s \<Longrightarrow>
      (\<forall>y \<in> St. \<exists>z \<in> insert c St. dependentOn s z y) \<Longrightarrow>
      (m_pluginStates s c = Active \<longrightarrow> c \<notin> St) \<and> held St s'"
  shows "deactivateDependents n env ds t = Some (True, t') \<Longrightarrow> held St t \<Longrightarrow>
      (\<forall>d \<in> set ds. \<forall>y \<in> St. \<exists>z \<in> insert d St. dependentOn t z y) \<Longrightarrow>
      set ds \<inter> St = {} \<and> held St t'"
proof (induction ds arbitrary: t)
  case Nil
  then show ?case by simp
next
  case (Cons d ds)
  from Cons.prems(1) show ?case
  proof (cases rule: deactivateDependents_cases)
    case failed
    then show ?thesis by simp
  next
    case (ok t1)
    from Cons.prems(3) have chain: "\<forall>y \<in> St. \<exists>z \<in> insert d St. dependentOn t z y" by simp
    from IH [OF ok(1) Cons.prems(2) chain]
    have d: "m_pluginStates t d = Active \<longrightarrow> d \<notin> St" and h1: "held St t1" by simp_all
    from d Cons.prems(2) have dn: "d \<notin> St" by (auto simp: held_def)
    have st: "steady t t1" using ok(1) by (rule deactivatePlugin_steady)
    have chain1: "\<forall>d \<in> set ds. \<forall>y \<in> St. \<exists>z \<in> insert d St. dependentOn t1 z y"
      using Cons.prems(3) dependentOn_steady [OF st] by (meson list.set_intros(2))
    from Cons.IH [OF ok(2) h1 chain1] dn show ?thesis by simp
  qed
qed

lemma deactivatePlugin_held:
  "deactivatePlugin n env c s = Some (True, s') \<Longrightarrow> held St s \<Longrightarrow>
   (\<forall>y \<in> St. \<exists>z \<in> insert c St. dependentOn s z y) \<Longrightarrow>
   (m_pluginStates s c = Active \<longrightarrow> c \<notin> St) \<and> held St s'"
proof (induction n arbitrary: c s s' St)
  case 0
  then show ?case by simp
next
  case (Suc n)
  let ?L = "fst (activeDependents c (qmap_keys (m_plugins s)) s)"
  let ?s0 = "snd (activeDependents c (qmap_keys (m_plugins s)) s)"
  from Suc.prems(1) show ?case
  proof (cases rule: deactivatePlugin_cases)
    case early
    with Suc.prems(2) show ?thesis by auto
  next
    case (failed m)
    then show ?thesis by simp
  next
    case (hook m s1)
    then have m: "m = n" by simp
    have st0: "steady s ?s0" by simp
    have h0: "held (insert c St) ?s0" using Suc.prems(2) hook(4) by (simp add: held_def)
    have chain0: "\<forall>d \<in> set ?L. \<forall>y \<in> insert c St. \<exists>z \<in> insert d (insert c St). dependentOn ?s0 z y"
    proof (intro ballI)
      fix d y assume d: "d \<in> set ?L" and y: "y \<in> insert c St"
      show "\<exists>z \<in> insert d (insert c St). dependentOn ?s0 z y"
      proof (cases "y = c")
        case True
        from activeDependents_sound [OF d] have "dependentOn ?s0 d c"
          by (auto simp: dependentOn_def)
        with True show ?thesis by blast
      next
        case False
        with y Suc.prems(3) obtain z where "z \<in> insert c St" "dependentOn s z y" by blast
        with dependentOn_steady [OF st0] show ?thesis by blast
      qed
    qed
    have loop: "set ?L \<inter> insert c St = {} \<and> held (insert c St) s1"
      by (rule deactivateDependents_held [OF _ hook(5) [unfolded m] h0 chain0]) (rule Suc.IH)
    have cn: "c \<notin> St"
    proof
      assume c: "c \<in> St"
      with Suc.prems(3) obtain z where z: "z \<in> insert c St" "dependentOn s z c" by blast
      then have zc: "z \<noteq> c" and zk: "z \<in> set (qmap_keys (m_plugins s))"
        and "\<exists>md. map_of (m_pluginMetadata s) z = Some md \<and> dependsOn md c"
        by (simp_all add: dependentOn_def)
      then obtain md where md: "map_of (m_pluginMetadata s) z = Some md" "dependsOn md c" by blast
      from z zc have zs: "z \<in> St" by simp
      with Suc.prems(2) have "m_pluginStates s z = Active" by (simp add: held_def)
      from activeDependents_complete [OF zk zc this md] have "z \<in> set ?L" .
      with zs loop show False by auto
    qed
    from hook(6) have "m_pluginStates s' = (m_pluginStates s1)(c := Initialized)"
      by (auto elim!: deactivateHook_cases)
    with loop cn have "held St s'" by (auto simp: held_def)
    with cn show ?thesis by simp
  qed
qed

subsection \<open>deactivatePlugin\<close>

lemma steady_trace: "steady s s' \<Longrightarrow> trace s' = trace s @ newEvents s s'"
  by (simp add: steady_def grows_trace)

lemma steady_newEvents:
  "steady s s1 \<Longrightarrow> steady s1 s2 \<Longrightarrow> newEvents s s2 = newEvents s s1 @ newEvents s1 s2"
  by (simp add: steady_def newEvents_append)

lemma deactivationTrace_seq:
  assumes "deactivationTrace True st1 e1" "deactivationTrace r st2 e2"
  shows "deactivationTrace r st2 (e1 @ e2)"
proof (cases "r \<or> (\<forall>e \<in> set e2. \<not> failedDeactivation e)")
  case True
  with assms show ?thesis by (auto simp: deactivationTrace_def split: if_splits)
next
  case False
  with assms(2) obtain pre x out where
    e2: "e2 = pre @ [HookCall x Deactivate out st2]" and out: "out \<noteq> Returns True"
    and pre: "\<forall>e \<in> set pre. \<not> failedDeactivation e"
    by (auto simp: deactivationTrace_def split: if_splits)
  from e2 have "e1 @ e2 = (e1 @ pre) @ [HookCall x Deactivate out st2]" by simp
  moreover from assms(1) pre have "\<forall>e \<in> set (e1 @ pre). \<not> failedDeactivation e"
    by (auto simp: deactivationTrace_def)
  moreover from assms have "\<forall>e \<in> set (e1 @ e2). deactivationEvent e"
    by (auto simp: deactivationTrace_def)
  ultimately show ?thesis using False out unfolding deactivationTrace_def by auto
qed

lemma deactivation_refl [simp]: "deactivation s r s"
  by (simp add: deactivation_def deactivationTrace_def)

lemma deactivation_seq:
  assumes a: "deactivation s True s1" and b: "deactivation s1 r s2"
  shows "deactivation s r s2"
proof -
  from a b have st1: "steady s s1" and st2: "steady s1 s2" by (simp_all add: deactivation_def)
  have st: "steady s s2" using st1 st2 by (rule steady_trans)
  have ev: "newEvents s s2 = newEvents s s1 @ newEvents s1 s2"
    using st1 st2 by (rule steady_newEvents)
  have tr: "deactivationTrace r (m_pluginStates s2) (newEvents s s2)"
    unfolding ev using a b by (intro deactivationTrace_seq [of "m_pluginStates s1"]) (simp_all add: deactivation_def)
  have "m_pluginStates s2 k = m_pluginStates s k \<or>
        (m_pluginStates s k = Active \<and> m_pluginStates s2 k = Initialized)" for k
  proof -
    from a have "m_pluginStates s1 k = m_pluginStates s k \<or>
        (m_pluginStates s k = Active \<and> m_pluginStates s1 k = Initialized)"
      by (simp add: deactivation_def)
    moreover from b have "m_pluginStates s2 k = m_pluginStates s1 k \<or>
        (m_pluginStates s1 k = Active \<and> m_pluginStates s2 k = Initialized)"
      by (simp add: deactivation_def)
    ultimately show ?thesis by auto
  qed
  with st tr show ?thesis by (simp add: deactivation_def)
qed

lemma activeDependents_deactivation [simp]:
  "deactivation s r (snd (activeDependents i ks s))"
  by (simp add: deactivation_def deactivationTrace_def newEvents_def)

lemma deactivateHook_deactivation:
  assumes h: "deactivateHook env i s = Some (r, s')" and a: "m_pluginStates s i = Active"
  shows "deactivation s r s'"
proof -
  from h obtain plugin where
    r: "r = (hooks env (trace s) plugin Deactivate = Returns True)"
    and s': "s' = s\<lparr> m_pluginStates := (if r then (m_pluginStates s)(i := Initialized) else m_pluginStates s),
             trace := trace s @ HookCall i Deactivate (hooks env (trace s) plugin Deactivate) (m_pluginStates s)
                        # (if r then [Emit (pluginDeactivated i)] else []) \<rparr>"
    by (rule deactivateHook_cases)
  have st: "steady s s'" using h by (rule deactivateHook_steady)
  have ev: "newEvents s s' = HookCall i Deactivate (hooks env (trace s) plugin Deactivate) (m_pluginStates s)
                        # (if r then [Emit (pluginDeactivated i)] else [])"
    unfolding s' by (simp add: newEvents_def)
  have tr: "deactivationTrace r (m_pluginStates s') (newEvents s s')"
  proof (cases r)
    case True
    with r a show ?thesis unfolding ev by (simp add: deactivationTrace_def)
  next
    case False
    with r a s' show ?thesis unfolding ev by (simp add: deactivationTrace_def)
  qed
  from a have "\<forall>k. m_pluginStates s' k = m_pluginStates s k \<or>
           (m_pluginStates s k = Active \<and> m_pluginStates s' k = Initialized)"
    unfolding s' by simp
  with st tr show ?thesis by (simp add: deactivation_def)
qed

lemma deactivateDependents_deactivation:
  assumes IH: "\<And>i s r s'. deactivatePlugin n env i s = Some (r, s') \<Longrightarrow> deactivation s r s'"
  shows "deactivateDependents n env ds s = Some (r, s') \<Longrightarrow> deactivation s r s'"
proof (induction ds arbitrary: s)
  case Nil
  then show ?case by simp
next
  case (Cons d ds)
  from Cons.prems show ?case
  proof (cases rule: deactivateDependents_cases)
    case failed
    with IH [OF failed(1)] show ?thesis by simp
  next
    case (ok s1)
    from IH [OF ok(1)] Cons.IH [OF ok(2)] show ?thesis by (rule deactivation_seq)
  qed
qed

lemma deactivatePlugin_deactivation:
  "deactivatePlugin n env i s = Some (r, s') \<Longrightarrow> deactivation s r s'"
proof (induction n arbitrary: i s r s')
  case 0
  then show ?case by simp
next
  case (Suc n)
  let ?L = "fst (activeDependents i (qmap_keys (m_plugins s)) s)"
  let ?s0 = "snd (activeDependents i (qmap_keys (m_plugins s)) s)"
  have loop: "deactivation t r' t'" if "deactivateDependents n env ds t = Some (r', t')" for ds t r' t'
    by (rule deactivateDependents_deactivation [OF _ that]) (rule Suc.IH)
  from Suc.prems show ?case
  proof (cases rule: deactivatePlugin_cases)
    case early
    then show ?thesis by simp
  next
    case (failed m)
    then have "deactivation ?s0 False s'" using loop by simp
    with failed(6) show ?thesis
      using deactivation_seq [OF activeDependents_deactivation] by simp
  next
    case (hook m s1)
    then have m: "m = n" by simp
    from hook(5) have l: "deactivation ?s0 True s1" unfolding m by (rule loop)
    have l0: "deactivation s True s1"
      using activeDependents_deactivation l by (rule deactivation_seq)
    have h0: "held {i} ?s0" using hook(4) by (simp add: held_def)
    have chain: "\<forall>d \<in> set ?L. \<forall>y \<in> {i}. \<exists>z \<in> insert d {i}. dependentOn ?s0 z y"
      using activeDependents_sound [of _ i "qmap_keys (m_plugins s)" s]
      by (auto simp: dependentOn_def)
    have "set ?L \<inter> {i} = {} \<and> held {i} s1"
      by (rule deactivateDependents_held [OF _ hook(5) [unfolded m] h0 chain])
         (rule deactivatePlugin_held)
    then have a: "m_pluginStates s1 i = Active" by (simp add: held_def)
    from l0 deactivateHook_deactivation [OF hook(6) a] show ?thesis by (rule deactivation_seq)
  qed
qed

subsection \<open>Reading a failed hook off the events of a call\<close>

lemma reported_unique:
  assumes r: "reported st evs" and d: "evs = pre @ HookCall x h out snap # post"
    and f: "failedHook (HookCall x h out snap)"
  shows "st x = Failed \<and> (\<exists>post'. post = Emit (pluginFailed x (failureMessage h out)) # post')"
proof -
  from r obtain pre2 x2 h2 out2 snap2 post2 where
    e: "evs = pre2 @ HookCall x2 h2 out2 snap2 # Emit (pluginFailed x2 (failureMessage h2 out2)) # post2"
    and c: "\<forall>e \<in> set pre2. \<not> failedHook e" and p: "\<forall>e \<in> set post2. isFailedSignal e"
    and st: "st x2 = Failed"
    unfolding reported_def by blast
  let ?e = "HookCall x h out snap"
  from d e have eq: "pre @ ?e # post = pre2 @ HookCall x2 h2 out2 snap2 # Emit (pluginFailed x2 (failureMessage h2 out2)) # post2"
    by simp
  have notin: "?e \<notin> set pre2" using c f by auto
  have notpost: "?e \<notin> set (Emit (pluginFailed x2 (failureMessage h2 out2)) # post2)"
    using p by auto
  from eq notin notpost have "pre = pre2 \<and> ?e = HookCall x2 h2 out2 snap2 \<and>
      post = Emit (pluginFailed x2 (failureMessage h2 out2)) # post2"
    by (auto simp: append_eq_append_conv2 append_eq_Cons_conv Cons_eq_append_conv)
  with st show ?thesis by simp
qed

lemma failed_hook_outcome:
  assumes l: "lifecycle s r s'" and d: "newEvents s s' = pre @ HookCall x h out snap # post"
    and h: "h = Initialize \<or> h = Activate" and o: "out \<noteq> Returns True"
  shows "\<not> r \<and> m_pluginStates s' x = Failed \<and>
         (\<exists>post'. post = Emit (pluginFailed x (failureMessage h out)) # post')"
proof -
  from h o have f: "failedHook (HookCall x h out snap)" by simp
  from d have "HookCall x h out snap \<in> set (newEvents s s')" by simp
  with f have nc: "\<not> (\<forall>e \<in> set (newEvents s s'). \<not> failedHook e)" by blast
  from l have "outcomeReported r (m_pluginStates s') (newEvents s s')" by (simp add: lifecycle_def)
  with nc have "\<not> r" and "reported (m_pluginStates s') (newEvents s s')"
    by (auto simp: outcomeReported_def split: if_splits)
  with reported_unique [OF _ d f] show ?thesis by blast
qed

lemma failed_deactivation_outcome:
  assumes l: "deactivation s r s'" and d: "newEvents s s' = pre @ HookCall x Deactivate out snap # post"
    and o: "out \<noteq> Returns True"
  shows "\<not> r \<and> post = [] \<and> m_pluginStates s' = snap \<and> m_pluginStates s' x = Active \<and>
         (\<forall>k. m_pluginStates s' k = Failed \<longrightarrow> m_pluginStates s k = Failed) \<and>
         (\<forall>y m. Emit (pluginFailed y m) \<notin> set (newEvents s s'))"
proof -
  let ?e = "HookCall x Deactivate out snap"
  from l have tr: "deactivationTrace r (m_pluginStates s') (newEvents s s')"
    and stt: "\<forall>k. m_pluginStates s' k = m_pluginStates s k \<or>
           (m_pluginStates s k = Active \<and> m_pluginStates s' k = Initialized)"
    by (simp_all add: deactivation_def)
  from d have mem: "?e \<in> set (newEvents s s')" by simp
  from o have f: "failedDeactivation ?e" by simp
  from tr mem have a: "snap x = Active" by (auto simp: deactivationTrace_def)
  from tr mem f have nr: "\<not> r" by (auto simp: deactivationTrace_def split: if_splits)
  from tr mem f nr obtain pre2 x2 out2 where
    e: "newEvents s s' = pre2 @ [HookCall x2 Deactivate out2 (m_pluginStates s')]"
    and c: "\<forall>e \<in> set pre2. \<not> failedDeactivation e"
    by (auto simp: deactivationTrace_def split: if_splits)
  from c f have notin: "?e \<notin> set pre2" by auto
  from d e have "pre @ ?e # post = pre2 @ [HookCall x2 Deactivate out2 (m_pluginStates s')]" by simp
  with notin have "post = [] \<and> ?e = HookCall x2 Deactivate out2 (m_pluginStates s')"
    by (auto simp: append_eq_append_conv2 append_eq_Cons_conv Cons_eq_append_conv)
  then have p: "post = []" and sn: "m_pluginStates s' = snap" by simp_all
  have nf: "\<forall>k. m_pluginStates s' k = Failed \<longrightarrow> m_pluginStates s k = Failed"
  proof (intro allI impI)
    fix k assume f: "m_pluginStates s' k = Failed"
    from stt have "m_pluginStates s' k = m_pluginStates s k \<or>
           (m_pluginStates s k = Active \<and> m_pluginStates s' k = Initialized)" by blast
    with f show "m_pluginStates s k = Failed" by auto
  qed
  have ns: "\<forall>y m. Emit (pluginFailed y m) \<notin> set (newEvents s s')"
  proof (intro allI notI)
    fix y m assume "Emit (pluginFailed y m) \<in> set (newEvents s s')"
    with tr have "deactivationEvent (Emit (pluginFailed y m))" by (auto simp: deactivationTrace_def)
    then show False by simp
  qed
  from nr p sn a nf ns show ?thesis by simp
qed

subsection \<open>Evaluating the example installation\<close>

lemmas example_defs =
  exampleEnvironment_def exampleFiles_def exampleLibraries_def loadedManager_def exampleRegistry_def
  descriptor_def freshManager_def

lemmas operation_defs =
  isPluginLoaded_def isPluginActive_def qmap_contains_def metadataRef_def getPluginDependencies_def
  json_value_def initializeHook_def activateHook_def deactivateHook_def invokeHook_def
  failPlugin_def emit_def setState_def newEvents_def qmap_keys_def dependsOn_def
  Let_def

lemma version_example [simp]:
  "fromString ''1.0.0'' = [1, 0, 0]" "fromString ''99.0.0'' = [99, 0, 0]"
  by (simp_all add: fromString.simps isDigit_def digitValue_def decimal_def isSpace_def skipSign_def)

text \<open>White space before a segment and a plus sign are skipped; a minus sign ends the parse.\<close>

lemma version_blank_example:
  "fromString '' 99.0.0'' = [99, 0, 0]" "fromString ''1. 2'' = [1, 2]" "fromString ''+1.+2'' = [1, 2]"
  "fromString ''-1.0'' = []" "fromString ''1.x'' = [1]" "fromString ''1.0.0-beta'' = [1, 0, 0]"
  by (simp_all add: fromString.simps isDigit_def digitValue_def decimal_def isSpace_def skipSign_def)

lemmas load_defs =
  loadPlugin_def loadPluginMetadata_def loadFromFile_def loadFromString_def requiredFieldsPresent_def
  json_contains_def isValid_def getPluginId_def checkPluginDependencies_def
  isCompatibleWithFramework_def getMinFrameworkVersionNumber_def getMinFrameworkVersion_def
  m_frameworkVersion_def resolvePluginPath_def loadLibrary_def loaderUnload_def registeredManager_def

text \<open>A descriptor that asks for framework version 99.0.0 with a blank before the number is
  incompatible as well, and so is one that asks for 1.0.1; one that asks for 1 or for
  nothing that can be read is compatible.\<close>

lemma incompatible_blank_example:
  "\<not> isCompatibleWithFramework \<lparr> m_metadata = descriptor ''X'' [] '' 99.0.0'', m_isValid = True \<rparr> m_frameworkVersion"
  "\<not> isCompatibleWithFramework \<lparr> m_metadata = descriptor ''X'' [] ''1.0.1'', m_isValid = True \<rparr> m_frameworkVersion"
  "isCompatibleWithFramework \<lparr> m_metadata = descriptor ''X'' [] ''1'', m_isValid = True \<rparr> m_frameworkVersion"
  "isCompatibleWithFramework \<lparr> m_metadata = descriptor ''X'' [] ''latest'', m_isValid = True \<rparr> m_frameworkVersion"
  by (simp_all add: load_defs example_defs operation_defs fromString.simps isDigit_def digitValue_def
      decimal_def isSpace_def skipSign_def)

subsection \<open>Successful calls\<close>

lemma activatePlugin_success_hook:
  assumes c: "activatePlugin n env i s = Some (True, s')" and na: "m_pluginStates s i \<noteq> Active"
  shows "\<exists>snapshot. HookCall i Activate (Returns True) snapshot \<in> set (newEvents s s')"
  using c
proof (cases rule: activatePlugin_cases)
  case early
  with na show ?thesis by simp
next
  case (init_failed m)
  then show ?thesis by simp
next
  case (deps_failed m s0)
  then show ?thesis by simp
next
  case (hook m s0 s2)
  from hook(8) obtain plugin where
    r: "hooks env (trace s2) plugin Activate = Returns True"
    and s': "s' = s2\<lparr> m_pluginStates := (m_pluginStates s2)(i := if True then Active else Failed),
             trace := trace s2 @ [HookCall i Activate (hooks env (trace s2) plugin Activate) (m_pluginStates s2),
                        Emit (if True then pluginActivated i
                              else pluginFailed i (activateFailure (hooks env (trace s2) plugin Activate)))] \<rparr>"
    by (auto elim!: activateHook_cases)
  from s' r have mem: "HookCall i Activate (Returns True) (m_pluginStates s2) \<in> set (trace s')" by simp
  have "HookCall i Activate (Returns True) (m_pluginStates s2) \<in> set (newEvents s2 s')"
    unfolding s' using r by (simp add: newEvents_def)
  moreover have g2: "grows s2 s'" unfolding s' by (simp add: grows_def)
  moreover have g: "grows s s'" using activatePlugin_lifecycle [OF c] by (simp add: lifecycle_def)
  moreover have g1: "grows s s2"
  proof -
    have a: "grows s s0"
      using hook(6) initializePlugin_lifecycle [of m env i s True s0]
      by (auto simp: lifecycle_def split: if_splits)
    have b: "grows s0 (snd (metadataRef i s0))"
      using metadataRef_step(1) [of s0 True i] by (simp add: lifecycle_def)
    have "lifecycle (snd (metadataRef i s0)) True s2"
      using activateDependencies_lifecycle [OF _ hook(7)] activatePlugin_lifecycle by blast
    then have "grows (snd (metadataRef i s0)) s2" by (simp add: lifecycle_def)
    with a b show ?thesis using grows_trans by blast
  qed
  ultimately show ?thesis using newEvents_append [OF g1 g2] by auto
qed

lemma loadLibrary_success:
  "fst (loadLibrary env i path s) \<Longrightarrow> map_of (m_plugins (snd (loadLibrary env i path s))) i \<noteq> None"
  by (auto simp: loadLibrary_def Let_def split: option.splits library.splits)

lemma loadPlugin_success:
  assumes "loadPlugin env i s = (True, s')"
  shows "m_initialized s' \<and> map_of (m_plugins s') i \<noteq> None"
proof -
  from loadPlugin_step [of s env i] assms have "m_initialized s' = m_initialized s"
    by (simp add: lifecycle_def grows_def)
  moreover from assms have "m_initialized s" by (auto simp: loadPlugin_unfold split: if_splits)
  moreover from assms have "map_of (m_plugins s') i \<noteq> None"
    using loadLibrary_success [of env i]
    by (auto simp: loadPlugin_unfold isPluginLoaded_def qmap_contains_def split: if_splits)
       (metis fst_conv snd_conv)
  ultimately show ?thesis by simp
qed

lemma initializePlugin_success:
  assumes c: "initializePlugin n env i s = Some (True, s')"
  shows "m_initialized s' \<and> map_of (m_plugins s') i \<noteq> None \<and>
         (m_pluginStates s' i = Initialized \<or> m_pluginStates s' i = Active)"
  using c
proof (cases rule: initializePlugin_cases)
  case early
  then show ?thesis by (auto simp: isPluginLoaded_def qmap_contains_def split: if_splits)
next
  case (failed m)
  then show ?thesis by simp
next
  case (hook m s1)
  from initializePlugin_lifecycle [OF c] hook(2) have "m_initialized s'"
    by (simp add: lifecycle_def grows_def)
  moreover from hook(8) have "map_of (m_plugins s') i \<noteq> None \<and> m_pluginStates s' i = Initialized"
    by (auto elim!: initializeHook_cases)
  ultimately show ?thesis by simp
qed

lemma activatePlugin_success:
  assumes c: "activatePlugin n env i s = Some (True, s')"
  shows "m_initialized s' \<and> map_of (m_plugins s') i \<noteq> None \<and> m_pluginStates s' i = Active"
  using c
proof (cases rule: activatePlugin_cases)
  case early
  then show ?thesis by (auto simp: isPluginLoaded_def qmap_contains_def split: if_splits)
next
  case (init_failed m)
  then show ?thesis by simp
next
  case (deps_failed m s0)
  then show ?thesis by simp
next
  case (hook m s0 s2)
  from activatePlugin_lifecycle [OF c] hook(2) have "m_initialized s'" "m_pluginStates s' i = Active"
    by (simp_all add: lifecycle_def grows_def)
  moreover from hook(8) have "map_of (m_plugins s') i \<noteq> None"
    by (auto elim!: activateHook_cases)
  ultimately show ?thesis by simp
qed

subsection \<open>unloadPlugin\<close>

lemma split_no_separator: "sep \<notin> set b \<Longrightarrow> split sep b = [b]"
  by (induction b) auto

lemma split_at_separator:
  "sep \<notin> set a \<Longrightarrow> split sep (a @ sep # b) = a # split sep b"
  by (induction a) auto

lemma ownedBy_handlerKey:
  "CHR '':'' \<notin> set pluginId \<Longrightarrow> CHR '':'' \<notin> set messageType \<Longrightarrow>
   ownedBy pluginId (handlerKey pluginId messageType)"
  by (simp add: ownedBy_def handlerKey_def split_at_separator split_no_separator)

lemma releasePlugin_cases:
  assumes "releasePlugin env i s = Some (r, s')"
  obtains loader ok where "m_pluginLoaders s i = Some loader" "r = Inr ok"
    "trace s' = trace s @ UnregisterAllHandlers i # LoaderUnload loader ok # (if ok then [Emit (pluginUnloaded i)] else [])"
    "communication s' = snd (unregisterAllMessageHandlers i (communication s))"
  using assms
  by (auto simp: releasePlugin_def loaderUnload_def emit_def setState_def Let_def
      split: option.splits if_splits)

text \<open>The state in which \<open>unloadPlugin\<close> reaches the shutdown hook.\<close>

lemma unloadPlugin_cases:
  assumes "unloadPlugin n env i s = Some (r, s')"
  obtains (early) "s' = s" "r = Inr (m_initialized s \<and> \<not> isPluginLoaded s i)"
      "\<not> (m_initialized s \<and> isPluginLoaded s i \<and> getDependentPlugins s i = [])"
  | (deactivate_failed) "m_initialized s" "isPluginLoaded s i" "getDependentPlugins s i = []"
      "isPluginActive s i" "deactivatePlugin n env i s = Some (False, s')" "r = Inr False"
  | (shutdown_failed) s1 plugin where "m_initialized s" "isPluginLoaded s i" "getDependentPlugins s i = []"
      "if isPluginActive s i then deactivatePlugin n env i s = Some (True, s1) else s1 = s"
      "map_of (m_plugins s1) i = Some plugin" "m_pluginStates s1 i = Initialized"
      "hooks env (trace s1) plugin Shutdown \<noteq> Returns True"
      "s' = snd (invokeHook env i plugin Shutdown s1)" "r \<noteq> Inr True"
  | (release) s1 s2 plugin where "m_initialized s" "isPluginLoaded s i" "getDependentPlugins s i = []"
      "if isPluginActive s i then deactivatePlugin n env i s = Some (True, s1) else s1 = s"
      "map_of (m_plugins s1) i = Some plugin"
      "if m_pluginStates s1 i = Initialized
       then hooks env (trace s1) plugin Shutdown = Returns True \<and> s2 = snd (invokeHook env i plugin Shutdown s1)
       else s2 = s1"
      "releasePlugin env i s2 = Some (r, s')"
proof (cases "m_initialized s \<and> isPluginLoaded s i \<and> getDependentPlugins s i = []")
  case False
  with assms show ?thesis by (intro early) (auto simp: unloadPlugin_def split: if_splits)
next
  case True
  let ?D = "if isPluginActive s i then deactivatePlugin n env i s else Some (True, s)"
  show ?thesis
  proof (cases ?D)
    case None
    with True assms show ?thesis by (simp add: unloadPlugin_def split: if_splits)
  next
    case (Some res)
    obtain deactivated s1 where res: "res = (deactivated, s1)" by (cases res)
    show ?thesis
    proof (cases deactivated)
      case False
      with Some res True assms show ?thesis
        by (intro deactivate_failed) (auto simp: unloadPlugin_def split: if_splits)
    next
      case d: True
      with Some res have s1: "if isPluginActive s i then deactivatePlugin n env i s = Some (True, s1) else s1 = s"
        by (auto split: if_splits)
      show ?thesis
      proof (cases "map_of (m_plugins s1) i")
        case None
        with Some res d True assms show ?thesis by (simp add: unloadPlugin_def)
      next
        case (Some plugin)
        note plugin = this
        note base = \<open>?D = Some res\<close> res d True assms plugin
        show ?thesis
        proof (cases "m_pluginStates s1 i = Initialized")
          case False
          with base have "releasePlugin env i s1 = Some (r, s')"
            by (simp add: unloadPlugin_def)
          with False True s1 plugin show ?thesis by (intro release [of s1 plugin s1]) auto
        next
          case init: True
          let ?s2 = "snd (invokeHook env i plugin Shutdown s1)"
          show ?thesis
          proof (cases "hooks env (trace s1) plugin Shutdown")
            case (Throws exc)
            with base init have "r = Inl exc" "s' = ?s2"
              by (simp_all add: unloadPlugin_def invokeHook_def Let_def)
            with Throws init True s1 plugin show ?thesis
              by (intro shutdown_failed [of s1 plugin]) auto
          next
            case (Returns ok)
            show ?thesis
            proof (cases ok)
              case False
              with Returns base init have "r = Inr False" "s' = ?s2"
                by (simp_all add: unloadPlugin_def invokeHook_def Let_def)
              with False Returns init True s1 plugin show ?thesis
                by (intro shutdown_failed [of s1 plugin]) auto
            next
              case ok: True
              with Returns base init have "releasePlugin env i ?s2 = Some (r, s')"
                by (simp add: unloadPlugin_def invokeHook_def Let_def)
              with ok Returns init True s1 plugin show ?thesis
                by (intro release [of s1 plugin ?s2]) auto
            qed
          qed
        qed
      qed
    qed
  qed
qed


lemma deactivation_events:
  assumes "deactivatePlugin n env i s = Some (r, s')"
  shows "communication s' = communication s \<and>
         trace s' = trace s @ newEvents s s' \<and> (\<forall>e \<in> set (newEvents s s'). deactivationEvent e)"
proof -
  from deactivatePlugin_deactivation [OF assms]
  have st: "steady s s'" and tr: "deactivationTrace r (m_pluginStates s') (newEvents s s')"
    by (simp_all add: deactivation_def)
  from st have "communication s' = communication s" by (simp add: steady_def grows_def)
  moreover from st have "trace s' = trace s @ newEvents s s'" by (rule steady_trace)
  moreover from tr have "\<forall>e \<in> set (newEvents s s'). deactivationEvent e"
    by (simp add: deactivationTrace_def)
  ultimately show ?thesis by simp
qed

lemma before_release:
  assumes "if isPluginActive s i then deactivatePlugin n env i s = Some (True, s1) else s1 = s"
  shows "communication s1 = communication s \<and>
         (\<exists>evs. trace s1 = trace s @ evs \<and> (\<forall>e \<in> set evs. deactivationEvent e))"
proof (cases "isPluginActive s i")
  case True
  with assms deactivation_events [of n env i s True s1] show ?thesis by auto
next
  case False
  with assms show ?thesis by simp
qed

lemma releasePlugin_result:
  assumes "m_pluginLoaders s i = Some loader" "bus_initialized (communication s)"
  shows "\<exists>s'. releasePlugin env i s =
            Some (Inr (unloads env (trace s @ [UnregisterAllHandlers i]) loader), s') \<and>
          trace s' = trace s @ [UnregisterAllHandlers i,
              LoaderUnload loader (unloads env (trace s @ [UnregisterAllHandlers i]) loader)] @
              (if unloads env (trace s @ [UnregisterAllHandlers i]) loader
               then [Emit (pluginUnloaded i)] else []) \<and>
          m_handlers (communication s') =
            (\<lambda>key. if ownedBy i key then None else m_handlers (communication s) key)"
  using assms
  by (simp add: releasePlugin_def loaderUnload_def unregisterAllMessageHandlers_def emit_def
      setState_def Let_def)

lemma unloadPlugin_unfold:
  assumes loaded: "isPluginLoaded s i" and free: "getDependentPlugins s i = []"
    and plugin: "map_of (m_plugins s) i = Some plugin"
    and deact: "if isPluginActive s i then deactivatePlugin n env i s = Some (deactivated, s1)
                else deactivated \<and> s1 = s"
  shows "unloadPlugin n env i s =
     (if \<not> deactivated then Some (Inr False, s1)
      else if m_pluginStates s1 i = Initialized
      then (case hooks env (trace s1) plugin Shutdown of
              Throws exc \<Rightarrow> Some (Inl exc, snd (invokeHook env i plugin Shutdown s1))
            | Returns ok \<Rightarrow>
                if \<not> ok then Some (Inr False, snd (invokeHook env i plugin Shutdown s1))
                else releasePlugin env i (snd (invokeHook env i plugin Shutdown s1)))
      else releasePlugin env i s1)"
proof -
  from loaded have ini: "m_initialized s" by (simp add: isPluginLoaded_def split: if_splits)
  have p1: "map_of (m_plugins s1) i = Some plugin"
  proof (cases "isPluginActive s i")
    case True
    with deact have "steady s s1" using deactivatePlugin_steady by auto
    with plugin show ?thesis by (simp add: steady_def)
  next
    case False
    with deact plugin show ?thesis by simp
  qed
  show ?thesis
  proof (cases "isPluginActive s i")
    case True
    with deact ini loaded free p1 show ?thesis
      by (simp add: unloadPlugin_def invokeHook_def Let_def split: hook_outcome.splits)
  next
    case False
    with deact ini loaded free p1 show ?thesis
      by (simp add: unloadPlugin_def invokeHook_def Let_def split: hook_outcome.splits)
  qed
qed


lemma reached_release:
  assumes plugin: "map_of (m_plugins s) i = Some plugin" and loader: "m_pluginLoaders s i = Some loader"
    and deact: "if isPluginActive s i then deactivatePlugin n env i s = Some (deactivated, s1)
                else deactivated \<and> s1 = s"
  shows "communication s1 = communication s \<and> m_pluginLoaders s1 i = Some loader \<and>
         (\<exists>evs. trace s1 = trace s @ evs \<and> newEvents s s1 = evs \<and>
                (\<forall>e \<in> set evs. deactivationEvent e))"
proof (cases "isPluginActive s i")
  case True
  with deact have d: "deactivatePlugin n env i s = Some (deactivated, s1)" by simp
  then have "steady s s1" by (rule deactivatePlugin_steady)
  with loader have "m_pluginLoaders s1 i = Some loader" by (simp add: steady_def)
  with deactivation_events [OF d] show ?thesis by auto
next
  case False
  with deact loader show ?thesis by (simp add: newEvents_def)
qed

lemma deactivationEvent_quiet:
  "deactivationEvent e \<Longrightarrow> e \<noteq> LoaderUnload l b \<and> e \<noteq> UnregisterAllHandlers j"
  by (cases e) auto

lemmas unload_defs =
  unloadPlugin_def releasePlugin_def loaderUnload_def getDependentPlugins_def
  unregisterAllMessageHandlers_def qmap_remove_def

subsection \<open>The depth-first traversal of the dependency graph\<close>

lemma buildDependencyGraph_Suc:
  "buildDependencyGraph (Suc n) registry p (v, out) =
     map_option (\<lambda>st. (fst st, snd st @ [p]))
       (visitDependencies n registry (dependenciesOf registry p) (insert p v, out))"
  by (auto simp: dependenciesOf_def split: option.splits)

lemma visitDependencies_Cons:
  "visitDependencies n registry (d # ds) (v, out) =
     (if d \<notin> v
      then (case buildDependencyGraph n registry d (v, out) of
              None \<Rightarrow> None | Some st \<Rightarrow> visitDependencies n registry ds st)
      else visitDependencies n registry ds (v, out))"
  by simp

lemma extends_refl [simp]: "extends st st"
  unfolding extends_def by (intro exI [of _ "[]"]) simp

lemma extends_trans:
  assumes "extends a b" "extends b c"
  shows "extends a c"
proof -
  from assms(1) obtain n1 where 1: "snd b = snd a @ n1" "fst b = fst a \<union> set n1" "distinct n1"
    "set n1 \<inter> fst a = {}" unfolding extends_def by blast
  from assms(2) obtain n2 where 2: "snd c = snd b @ n2" "fst c = fst b \<union> set n2" "distinct n2"
    "set n2 \<inter> fst b = {}" unfolding extends_def by blast
  from 1 2 show ?thesis unfolding extends_def
    by (intro exI [of _ "n1 @ n2"]) auto
qed

lemma extends_visit:
  assumes "extends (insert p v, out) st" "p \<notin> v"
  shows "extends (v, out) (fst st, snd st @ [p])"
proof -
  from assms(1) obtain new where n: "snd st = out @ new" "fst st = insert p v \<union> set new"
    "distinct new" "set new \<inter> insert p v = {}" unfolding extends_def by auto
  with assms(2) show ?thesis unfolding extends_def
    by (intro exI [of _ "new @ [p]"]) auto
qed

lemma visitDependencies_extends:
  assumes IH: "\<And>p st st'. buildDependencyGraph n registry p st = Some st' \<Longrightarrow> p \<notin> fst st \<Longrightarrow>
                 extends st st' \<and> p \<in> fst st'"
  shows "visitDependencies n registry ds st = Some st' \<Longrightarrow> extends st st' \<and> set ds \<subseteq> fst st'"
proof (induction ds arbitrary: st)
  case Nil
  then show ?case by (cases st) simp
next
  case (Cons d ds)
  obtain v out where st: "st = (v, out)" by (cases st)
  show ?case
  proof (cases "d \<in> v")
    case True
    with Cons.prems st have "visitDependencies n registry ds st = Some st'" by simp
    from Cons.IH [OF this] True st show ?thesis by (auto simp: extends_def)
  next
    case False
    with Cons.prems st obtain st1 where b: "buildDependencyGraph n registry d st = Some st1"
      and r: "visitDependencies n registry ds st1 = Some st'"
      by (auto split: option.splits)
    from IH [OF b] False st have e1: "extends st st1" and d1: "d \<in> fst st1" by simp_all
    from Cons.IH [OF r] have e2: "extends st1 st'" and s2: "set ds \<subseteq> fst st'" by simp_all
    from e2 d1 have "d \<in> fst st'" by (auto simp: extends_def)
    with extends_trans [OF e1 e2] s2 show ?thesis by simp
  qed
qed

lemma buildDependencyGraph_extends:
  "buildDependencyGraph n registry p st = Some st' \<Longrightarrow> p \<notin> fst st \<Longrightarrow>
   extends st st' \<and> p \<in> fst st'"
proof (induction n arbitrary: p st st')
  case 0
  then show ?case by (cases st) simp
next
  case (Suc n)
  obtain v out where st: "st = (v, out)" by (cases st)
  from Suc.prems(1) st obtain st1 where
    l: "visitDependencies n registry (dependenciesOf registry p) (insert p v, out) = Some st1"
    and s': "st' = (fst st1, snd st1 @ [p])"
    by (auto simp: buildDependencyGraph_Suc simp del: buildDependencyGraph.simps)
  have e: "extends (insert p v, out) st1"
    using visitDependencies_extends [OF _ l] Suc.IH by blast
  then have "p \<in> fst st1" by (auto simp: extends_def)
  with extends_visit [OF e] Suc.prems(2) st s' show ?case by simp
qed

lemma visitDependencies_extends':
  "visitDependencies n registry ds st = Some st' \<Longrightarrow> extends st st' \<and> set ds \<subseteq> fst st'"
  by (rule visitDependencies_extends) (rule buildDependencyGraph_extends)

text \<open>Enough fuel: one more than the number of registry entries not yet visited.\<close>

lemma visitDependencies_returns:
  assumes IH: "\<And>p st. p \<notin> fst st \<Longrightarrow> card (set (map fst registry) - fst st) < n \<Longrightarrow>
                 buildDependencyGraph n registry p st \<noteq> None"
  shows "card (set (map fst registry) - fst st) < n \<Longrightarrow> visitDependencies n registry ds st \<noteq> None"
proof (induction ds arbitrary: st)
  case Nil
  then show ?case by (cases st) simp
next
  case (Cons d ds)
  obtain v out where st: "st = (v, out)" by (cases st)
  show ?case
  proof (cases "d \<in> v")
    case True
    with Cons st show ?thesis by simp
  next
    case False
    with IH [of d st] Cons.prems st obtain st1 where b: "buildDependencyGraph n registry d st = Some st1"
      by auto
    from buildDependencyGraph_extends [OF b] False st have "fst st \<subseteq> fst st1"
      by (auto simp: extends_def)
    then have "card (set (map fst registry) - fst st1) \<le> card (set (map fst registry) - fst st)"
      by (intro card_mono) auto
    with Cons.prems have "card (set (map fst registry) - fst st1) < n" by simp
    from Cons.IH [OF this] b False st show ?thesis by simp
  qed
qed

lemma buildDependencyGraph_returns:
  "p \<notin> fst st \<Longrightarrow> card (set (map fst registry) - fst st) < n \<Longrightarrow>
   buildDependencyGraph n registry p st \<noteq> None"
proof (induction n arbitrary: p st)
  case 0
  then show ?case by simp
next
  case (Suc n)
  obtain v out where st: "st = (v, out)" by (cases st)
  let ?K = "set (map fst registry)"
  show ?case
  proof (cases "map_of registry p")
    case None
    with st show ?thesis by simp
  next
    case (Some md)
    then have "p \<in> ?K" by (metis map_of_eq_None_iff option.distinct(1) set_map)
    with Suc.prems(1) st have "p \<in> ?K - v" by simp
    then have "card (?K - insert p v) < card (?K - v)"
      by (intro psubset_card_mono) auto
    with Suc.prems(2) st have "card (?K - fst (insert p v, out)) < n" by simp
    from visitDependencies_returns [OF _ this, of "dependenciesOf registry p"] Suc.IH
    have "visitDependencies n registry (dependenciesOf registry p) (insert p v, out) \<noteq> None"
      by blast
    with st show ?thesis by (simp add: buildDependencyGraph_Suc del: buildDependencyGraph.simps)
  qed
qed

subsection \<open>Initialization of a plugin that depends on itself\<close>

lemma initializePlugin_self_dependency:
  assumes "m_initialized s" "isPluginLoaded s i" "m_pluginStates s i = Loaded"
    and "dependenciesOf (m_pluginMetadata s) i = i # others"
  shows "initializePlugin n env i s = None"
proof (induction n)
  case 0
  show ?case by simp
next
  case (Suc n)
  from assms(4) obtain md where md: "map_of (m_pluginMetadata s) i = Some md"
    and deps: "getPluginDependencies md = i # others"
    by (auto simp: dependenciesOf_def split: option.splits)
  from md have ref: "metadataRef i s = (md, s)" by (simp add: metadataRef_def)
  from assms(2,3) Suc have "initializeDependencies n env i (i # others) s = None" by simp
  with assms(1-3) ref deps show ?case by simp
qed

lemma activatePlugin_self_dependency:
  assumes "m_initialized s" "isPluginLoaded s i" "m_pluginStates s i = Loaded"
    and "dependenciesOf (m_pluginMetadata s) i = i # others"
  shows "activatePlugin n env i s = None"
proof (cases n)
  case 0
  then show ?thesis by simp
next
  case (Suc k)
  with assms(1-3) initializePlugin_self_dependency [OF assms, of k env] show ?thesis by simp
qed

subsection \<open>Dependencies come first on an acyclic registry\<close>

lemma dependenciesFirst_Nil [simp]: "dependenciesFirst registry []"
  by (simp add: dependenciesFirst_def)

lemma dependenciesFirst_snoc:
  assumes "dependenciesFirst registry out" "set (dependenciesOf registry p) \<subseteq> set out"
  shows "dependenciesFirst registry (out @ [p])"
  unfolding dependenciesFirst_def
proof (intro allI impI)
  fix xs q ys
  assume eq: "out @ [p] = xs @ q # ys"
  show "set (dependenciesOf registry q) \<subseteq> set xs"
  proof (cases ys rule: rev_cases)
    case Nil
    with eq assms(2) show ?thesis by simp
  next
    case (snoc ys' z)
    with eq have "out = xs @ q # ys'" by simp
    with assms(1) show ?thesis unfolding dependenciesFirst_def by blast
  qed
qed

lemma visitDependencies_consistent:
  assumes acyc: "acyclic (dependencyRelation registry)"
    and IH: "\<And>p st st'. buildDependencyGraph n registry p st = Some st' \<Longrightarrow> p \<notin> fst st \<Longrightarrow>
               consistent registry st \<Longrightarrow>
               \<forall>g \<in> pending st. (g, p) \<in> (dependencyRelation registry)\<^sup>+ \<Longrightarrow>
               consistent registry st' \<and> pending st' = pending st"
  shows "visitDependencies n registry ds st = Some st' \<Longrightarrow> consistent registry st \<Longrightarrow>
         \<forall>d \<in> set ds. \<forall>g \<in> pending st. (g, d) \<in> (dependencyRelation registry)\<^sup>+ \<Longrightarrow>
         consistent registry st' \<and> pending st' = pending st \<and> set ds \<subseteq> set (snd st')"
proof (induction ds arbitrary: st)
  case Nil
  then show ?case by (cases st) simp
next
  case (Cons d ds)
  obtain v out where st: "st = (v, out)" by (cases st)
  have rest: "\<forall>d \<in> set ds. \<forall>g \<in> pending st. (g, d) \<in> (dependencyRelation registry)\<^sup>+"
    using Cons.prems(3) by simp
  show ?case
  proof (cases "d \<in> v")
    case True
    have "d \<in> set out"
    proof (rule ccontr)
      assume "d \<notin> set out"
      with True st have "d \<in> pending st" by (simp add: pending_def)
      with Cons.prems(3) have "(d, d) \<in> (dependencyRelation registry)\<^sup>+" by simp
      with acyc show False by (simp add: acyclic_def)
    qed
    from True Cons.prems(1) st have r: "visitDependencies n registry ds st = Some st'" by simp
    from visitDependencies_extends' [OF r] \<open>d \<in> set out\<close> st have "d \<in> set (snd st')"
      by (auto simp: extends_def)
    with Cons.IH [OF r Cons.prems(2) rest] show ?thesis by simp
  next
    case False
    with Cons.prems(1) st obtain st1 where b: "buildDependencyGraph n registry d st = Some st1"
      and r: "visitDependencies n registry ds st1 = Some st'"
      by (auto split: option.splits)
    from False st have nv: "d \<notin> fst st" by simp
    from Cons.prems(3) have "\<forall>g \<in> pending st. (g, d) \<in> (dependencyRelation registry)\<^sup>+" by simp
    from IH [OF b nv Cons.prems(2) this] have c1: "consistent registry st1"
      and p1: "pending st1 = pending st" by simp_all
    from buildDependencyGraph_extends [OF b nv] have "d \<in> fst st1" by simp
    moreover from nv p1 have "d \<notin> pending st1" by (simp add: pending_def)
    ultimately have d1: "d \<in> set (snd st1)" by (simp add: pending_def)
    from rest p1 have "\<forall>d \<in> set ds. \<forall>g \<in> pending st1. (g, d) \<in> (dependencyRelation registry)\<^sup>+"
      by simp
    from Cons.IH [OF r c1 this] have res: "consistent registry st'" "pending st' = pending st1"
      "set ds \<subseteq> set (snd st')" by simp_all
    from visitDependencies_extends' [OF r] d1 have "d \<in> set (snd st')"
      by (auto simp: extends_def)
    with res p1 show ?thesis by simp
  qed
qed

lemma buildDependencyGraph_consistent:
  assumes acyc: "acyclic (dependencyRelation registry)"
  shows "buildDependencyGraph n registry p st = Some st' \<Longrightarrow> p \<notin> fst st \<Longrightarrow>
         consistent registry st \<Longrightarrow>
         \<forall>g \<in> pending st. (g, p) \<in> (dependencyRelation registry)\<^sup>+ \<Longrightarrow>
         consistent registry st' \<and> pending st' = pending st"
proof (induction n arbitrary: p st st')
  case 0
  then show ?case by (cases st) simp
next
  case (Suc n)
  let ?R = "dependencyRelation registry"
  obtain v out where st: "st = (v, out)" by (cases st)
  from Suc.prems(1) st obtain st1 where
    l: "visitDependencies n registry (dependenciesOf registry p) (insert p v, out) = Some st1"
    and s': "st' = (fst st1, snd st1 @ [p])"
    by (auto simp: buildDependencyGraph_Suc simp del: buildDependencyGraph.simps)
  from Suc.prems(2,3) st have pout: "p \<notin> set out" and c0: "consistent registry (insert p v, out)"
    by (auto simp: consistent_def)
  from pout have p0: "pending (insert p v, out) = insert p (pending st)"
    using st by (auto simp: pending_def)
  have pre: "\<forall>d \<in> set (dependenciesOf registry p). \<forall>g \<in> pending (insert p v, out). (g, d) \<in> ?R\<^sup>+"
  proof (intro ballI)
    fix d g
    assume d: "d \<in> set (dependenciesOf registry p)" and g: "g \<in> pending (insert p v, out)"
    from d have pd: "(p, d) \<in> ?R" by (simp add: dependencyRelation_def)
    from g p0 consider "g = p" | "g \<in> pending st" by auto
    then show "(g, d) \<in> ?R\<^sup>+"
    proof cases
      case 1
      with pd show ?thesis by auto
    next
      case 2
      with Suc.prems(4) have "(g, p) \<in> ?R\<^sup>+" by simp
      then show ?thesis using pd by (rule trancl_into_trancl)
    qed
  qed
  have loop: "consistent registry st1 \<and> pending st1 = pending (insert p v, out) \<and>
              set (dependenciesOf registry p) \<subseteq> set (snd st1)"
    by (rule visitDependencies_consistent [OF acyc _ l c0 pre]) (rule Suc.IH)
  with p0 have "p \<in> fst st1" "p \<notin> set (snd st1)" by (auto simp: pending_def)
  moreover from Suc.prems(2) st have "p \<notin> pending st" by (simp add: pending_def)
  ultimately show ?case
    using loop p0 s' dependenciesFirst_snoc [of registry "snd st1" p]
    by (auto simp: consistent_def pending_def)
qed

lemma sortPluginsByDependency_dependenciesFirst:
  assumes "acyclic (dependencyRelation registry)"
    and "sortPluginsByDependency n registry pluginIds = Some out"
  shows "dependenciesFirst registry out"
proof -
  from assms(2) obtain st where r: "visitDependencies n registry pluginIds ({}, []) = Some st"
    and out: "out = snd st" by (auto simp: sortPluginsByDependency_def)
  have "consistent registry st \<and> pending st = pending ({}, []) \<and> set pluginIds \<subseteq> set (snd st)"
  proof (rule visitDependencies_consistent [OF assms(1) _ r])
    show "consistent registry ({}, [])" by (simp add: consistent_def)
    show "\<forall>d \<in> set pluginIds. \<forall>g \<in> pending ({}, []). (g, d) \<in> (dependencyRelation registry)\<^sup>+"
      by (simp add: pending_def)
  qed (rule buildDependencyGraph_consistent [OF assms(1)])
  with out show ?thesis by (simp add: consistent_def)
qed

subsection \<open>The reversal loop of shutdown\<close>

declare reverseLoop.simps [simp del]

lemma length_reverseLoop [simp]: "length (reverseLoop i xs) = length xs"
proof (induction i xs rule: reverseLoop.induct)
  case (1 i xs)
  show ?case
  proof (cases "i < length xs div 2")
    case True
    with 1 show ?thesis by (subst reverseLoop.simps) (simp add: swapItemsAt_def)
  next
    case False
    then show ?thesis by (subst reverseLoop.simps) simp
  qed
qed

lemma nth_reverseLoop:
  "k < length xs \<Longrightarrow>
   reverseLoop i xs ! k =
     (if i \<le> k \<and> k < length xs - i then xs ! (length xs - 1 - k) else xs ! k)"
proof (induction i xs rule: reverseLoop.induct)
  case (1 i xs)
  show ?case
  proof (cases "i < length xs div 2")
    case True
    let ?j = "length xs - 1 - i"
    let ?ys = "swapItemsAt i ?j xs"
    have len: "length ?ys = length xs" by (simp add: swapItemsAt_def)
    from True have ij: "i < ?j" "?j < length xs" by arith+
    have swapped: "?ys ! m = (if m = ?j then xs ! i else if m = i then xs ! ?j else xs ! m)"
      if "m < length xs" for m
      using that ij by (simp add: swapItemsAt_def nth_list_update)
    have step: "reverseLoop i xs = reverseLoop (i + 1) ?ys"
      using True by (subst reverseLoop.simps) simp
    from 1(2) len have "k < length ?ys" by simp
    from 1(1) [OF True this] len
    have "reverseLoop (i + 1) ?ys ! k =
            (if i + 1 \<le> k \<and> k < length xs - (i + 1) then ?ys ! (length xs - 1 - k) else ?ys ! k)"
      by simp
    also have "\<dots> = (if i \<le> k \<and> k < length xs - i then xs ! (length xs - 1 - k) else xs ! k)"
    proof (cases "i + 1 \<le> k \<and> k < length xs - (i + 1)")
      case True
      with 1(2) have "length xs - 1 - k < length xs" "length xs - 1 - k \<noteq> ?j" "length xs - 1 - k \<noteq> i"
        by arith+
      with swapped [of "length xs - 1 - k"] have "?ys ! (length xs - 1 - k) = xs ! (length xs - 1 - k)"
        by simp
      moreover from True have "i \<le> k \<and> k < length xs - i" by arith
      ultimately show ?thesis using True by simp
    next
      case False
      then have lhs: "(if i + 1 \<le> k \<and> k < length xs - (i + 1) then ?ys ! (length xs - 1 - k) else ?ys ! k)
                      = ?ys ! k" by (rule if_not_P)
      from False consider "k = i" | "k = ?j" | "k < i" | "?j < k" by arith
      then have "?ys ! k = (if i \<le> k \<and> k < length xs - i then xs ! (length xs - 1 - k) else xs ! k)"
      proof cases
        case 1
        with ij swapped [of i] have "?ys ! k = xs ! ?j" by simp
        moreover from 1 ij have "i \<le> k \<and> k < length xs - i" by arith
        ultimately show ?thesis using 1 by simp
      next
        case 2
        with ij swapped [of ?j] have "?ys ! k = xs ! i" by simp
        moreover from 2 ij have "length xs - 1 - k = i" "i \<le> k \<and> k < length xs - i" by arith+
        ultimately show ?thesis by auto
      next
        case 3
        with ij \<open>k < length xs\<close> swapped [of k] have "?ys ! k = xs ! k" by simp
        moreover from 3 have "\<not> (i \<le> k \<and> k < length xs - i)" by arith
        ultimately show ?thesis by auto
      next
        case 4
        with ij \<open>k < length xs\<close> swapped [of k] have "?ys ! k = xs ! k" by simp
        moreover from 4 have "\<not> (i \<le> k \<and> k < length xs - i)" by arith
        ultimately show ?thesis by auto
      qed
      with lhs show ?thesis by simp
    qed
    finally show ?thesis using step by simp
  next
    case False
    then have stop: "reverseLoop i xs = xs" by (subst reverseLoop.simps) simp
    show ?thesis
    proof (cases "i \<le> k \<and> k < length xs - i")
      case True
      with False have "length xs - 1 - k = k" by arith
      with stop show ?thesis by simp
    next
      case False
      with stop show ?thesis by auto
    qed
  qed
qed

lemma reverseLoop_rev: "reverseLoop 0 xs = rev xs"
proof (rule nth_equalityI)
  show "length (reverseLoop 0 xs) = length (rev xs)" by simp
next
  fix k
  assume "k < length (reverseLoop 0 xs)"
  then have k: "k < length xs" by simp
  then have "length xs - 1 - k = length xs - Suc k" by simp
  with k show "reverseLoop 0 xs ! k = rev xs ! k"
    by (simp add: nth_reverseLoop rev_nth)
qed

subsection \<open>The traversal on a dependency-closed set of ids\<close>

text \<open>The traversal stays inside any set of ids closed under declared dependencies.\<close>

lemma visitDependencies_closed:
  assumes closed: "\<forall>p \<in> W. set (dependenciesOf registry p) \<subseteq> W"
    and IH: "\<And>p st st'. buildDependencyGraph n registry p st = Some st' \<Longrightarrow> p \<in> W \<Longrightarrow>
               fst st' \<subseteq> fst st \<union> W"
  shows "visitDependencies n registry ds st = Some st' \<Longrightarrow> set ds \<subseteq> W \<Longrightarrow> fst st' \<subseteq> fst st \<union> W"
proof (induction ds arbitrary: st)
  case Nil
  then show ?case by (cases st) simp
next
  case (Cons d ds)
  obtain v out where st: "st = (v, out)" by (cases st)
  show ?case
  proof (cases "d \<in> v")
    case True
    with Cons.prems(1) st have r: "visitDependencies n registry ds st = Some st'" by simp
    from Cons.IH [OF r] Cons.prems(2) show ?thesis by simp
  next
    case False
    with Cons.prems(1) st obtain st1 where b: "buildDependencyGraph n registry d st = Some st1"
      and r: "visitDependencies n registry ds st1 = Some st'"
      by (auto split: option.splits)
    from IH [OF b] Cons.prems(2) have "fst st1 \<subseteq> fst st \<union> W" by simp
    moreover from Cons.IH [OF r] Cons.prems(2) have "fst st' \<subseteq> fst st1 \<union> W" by simp
    ultimately show ?thesis by blast
  qed
qed

lemma buildDependencyGraph_closed:
  assumes closed: "\<forall>p \<in> W. set (dependenciesOf registry p) \<subseteq> W"
  shows "buildDependencyGraph n registry p st = Some st' \<Longrightarrow> p \<in> W \<Longrightarrow> fst st' \<subseteq> fst st \<union> W"
proof (induction n arbitrary: p st st')
  case 0
  then show ?case by (cases st) simp
next
  case (Suc n)
  obtain v out where st: "st = (v, out)" by (cases st)
  from Suc.prems(1) st obtain st1 where
    l: "visitDependencies n registry (dependenciesOf registry p) (insert p v, out) = Some st1"
    and s': "st' = (fst st1, snd st1 @ [p])"
    by (auto simp: buildDependencyGraph_Suc simp del: buildDependencyGraph.simps)
  from closed Suc.prems(2) have "set (dependenciesOf registry p) \<subseteq> W" by simp
  from visitDependencies_closed [OF closed _ l this] Suc.IH
  have "fst st1 \<subseteq> fst (insert p v, out) \<union> W" by blast
  with s' st Suc.prems(2) show ?case by auto
qed

lemma sortPluginsByDependency_closed:
  assumes "\<forall>p \<in> set pluginIds. set (dependenciesOf registry p) \<subseteq> set pluginIds"
    and "sortPluginsByDependency n registry pluginIds = Some out"
  shows "set out = set pluginIds \<and> distinct out"
proof -
  from assms(2) obtain st where r: "visitDependencies n registry pluginIds ({}, []) = Some st"
    and out: "out = snd st" by (auto simp: sortPluginsByDependency_def)
  have "fst st \<subseteq> fst ({}::string set, []::string list) \<union> set pluginIds"
  proof (rule visitDependencies_closed [OF assms(1) _ r])
    show "set pluginIds \<subseteq> set pluginIds" by simp
  qed (rule buildDependencyGraph_closed [OF assms(1)])
  moreover from visitDependencies_extends' [OF r]
  have "distinct (snd st)" "set (snd st) = fst st" "set pluginIds \<subseteq> fst st"
    by (auto simp: extends_def)
  ultimately show ?thesis using out by auto
qed

subsection \<open>Manager-wide shutdown\<close>

text \<open>\<open>shutdown\<close> runs its loop over the reversed output of the dependency sort.\<close>

lemma shutdown_unfold:
  assumes "m_initialized s"
  shows "shutdown n env s =
     (case sortPluginsByDependency n (m_pluginMetadata s) (qmap_keys (m_plugins s)) of
        None \<Rightarrow> None
      | Some order \<Rightarrow>
          (case shutdownLoop n env (rev order) s of
             None \<Rightarrow> None
           | Some (Some exc, s1) \<Rightarrow> Some (Some exc, s1)
           | Some (None, s1) \<Rightarrow> Some (None, cleared s1)))"
  using assms by (simp add: shutdown_def reverseLoop_rev cleared_def split: option.splits prod.splits)

text \<open>One round of the loop: the result of the deactivation and a result of \<open>unloadPlugin\<close>
  that is a return value, success or not, are dropped and the loop goes on.\<close>

lemma shutdownLoop_continues:
  assumes "shutdownLoop n env (p # ps) s = Some (None, s')"
  shows "\<exists>deactivated s1 unloaded s2.
           (if isPluginActive s p then deactivatePlugin n env p s else Some (True, s)) = Some (deactivated, s1) \<and>
           unloadPlugin n env p s1 = Some (Inr unloaded, s2) \<and>
           shutdownLoop n env ps s2 = Some (None, s')"
proof -
  let ?d = "if isPluginActive s p then deactivatePlugin n env p s else Some (True, s)"
  from assms obtain deactivated s1 where d: "?d = Some (deactivated, s1)"
    by (cases ?d) auto
  with assms obtain r s2 where u: "unloadPlugin n env p s1 = Some (r, s2)"
    by (cases "unloadPlugin n env p s1") auto
  from assms d u obtain unloaded where r: "r = Inr unloaded" by (cases r) auto
  from assms d u r have "shutdownLoop n env ps s2 = Some (None, s')" by simp
  with d u r show ?thesis by blast
qed

text \<open>A \<open>shutdown\<close> that runs to its end on an acyclic registry has looped over the reverse
  of a sequence that holds every loaded id once, each after its declared dependencies.\<close>

lemma shutdown_reverse_dependency_order:
  assumes ini: "m_initialized s" and acyc: "acyclic (dependencyRelation (m_pluginMetadata s))"
    and ret: "shutdown n env s = Some (None, s')"
  shows "\<exists>order s1.
           sortPluginsByDependency n (m_pluginMetadata s) (qmap_keys (m_plugins s)) = Some order \<and>
           dependenciesFirst (m_pluginMetadata s) order \<and> distinct order \<and>
           set (qmap_keys (m_plugins s)) \<subseteq> set order \<and>
           shutdownLoop n env (rev order) s = Some (None, s1) \<and> s' = cleared s1"
proof -
  let ?sort = "sortPluginsByDependency n (m_pluginMetadata s) (qmap_keys (m_plugins s))"
  from ret ini obtain order where o: "?sort = Some order"
    by (cases ?sort) (auto simp: shutdown_unfold)
  then obtain st where v: "visitDependencies n (m_pluginMetadata s) (qmap_keys (m_plugins s)) ({}, []) = Some st"
    and os: "order = snd st" by (auto simp: sortPluginsByDependency_def)
  from visitDependencies_extends' [OF v] os
  have d: "distinct order" "set (qmap_keys (m_plugins s)) \<subseteq> set order"
    by (auto simp: extends_def)
  from ret ini o obtain s1 where "shutdownLoop n env (rev order) s = Some (None, s1)" "s' = cleared s1"
    by (auto simp: shutdown_unfold split: option.splits prod.splits)
  with o d sortPluginsByDependency_dependenciesFirst [OF acyc o] show ?thesis by blast
qed

text \<open>A chain: \<open>c\<close> depends on \<open>b\<close>, \<open>b\<close> on \<open>a\<close>. The sort gives \<open>a, b, c\<close> in whatever order the
  ids are requested, so the loop of \<open>shutdown\<close> takes \<open>c\<close>, then \<open>b\<close>, then \<open>a\<close>.\<close>

lemma chain_order:
  assumes distinct: "a \<noteq> b" "b \<noteq> c" "a \<noteq> c"
    and deps: "dependenciesOf registry a = []" "dependenciesOf registry b = [a]"
      "dependenciesOf registry c = [b]"
    and ids: "set pluginIds = {a, b, c}"
    and sort: "sortPluginsByDependency n registry pluginIds = Some out"
    and acyc: "acyclic (dependencyRelation registry)"
  shows "out = [a, b, c]"
proof -
  from deps ids have "\<forall>p \<in> set pluginIds. set (dependenciesOf registry p) \<subseteq> set pluginIds"
    by auto
  from sortPluginsByDependency_closed [OF this sort] ids
  have s: "set out = {a, b, c}" and d: "distinct out" by simp_all
  from distinct have "card {a, b, c} = 3" by simp
  with s d have "length out = 3" using distinct_card [OF d] by simp
  then obtain x y z where out: "out = [x, y, z]"
    by (auto simp: numeral_3_eq_3 length_Suc_conv)
  have first: "dependenciesFirst registry out"
    using acyc sort by (rule sortPluginsByDependency_dependenciesFirst)
  from first out have "set (dependenciesOf registry x) \<subseteq> set []"
    unfolding dependenciesFirst_def by (metis append_Nil)
  with deps have "x \<noteq> b" "x \<noteq> c" by auto
  with s out have x: "x = a" by auto
  from first out have "set (dependenciesOf registry y) \<subseteq> set [x]"
    unfolding dependenciesFirst_def by (metis append_Cons append_Nil)
  with deps x distinct have "y \<noteq> c" by auto
  moreover from d out x have "y \<noteq> a" by auto
  ultimately have y: "y = b" using s out by auto
  from d out x y s have "z = c" by auto
  with x y out show ?thesis by simp
qed

lemmas shutdown_defs =
  shutdown_def sortPluginsByDependency_def reverseLoop_rev hookCalls_def eval_nat_numeral

text \<open>The example chain with well-behaved hooks: the hooks run for \<open>C\<close>, then \<open>B\<close>, then \<open>A\<close>.
  Only \<open>C\<close> gets as far as its shutdown hook: the unload of \<open>B\<close> and of \<open>A\<close> is refused, since
  the registry still holds the entry of a plugin that names them.\<close>

lemma shutdown_chain_example:
  "map_option (\<lambda>(exc, s'). (exc, hookCalls (trace s'), map (m_pluginStates s') [''A'', ''B'', ''C''],
        map fst (m_plugins s'), m_initialized s'))
     (shutdown 5 (exampleEnvironment (\<lambda>history plugin h. Returns True))
        (loadedManager (\<lambda>k. if k \<in> {''A'', ''B'', ''C''} then Active else NotLoaded) Map.empty))
   = Some (None, [(''C'', Deactivate), (''C'', Shutdown), (''B'', Deactivate), (''A'', Deactivate)],
       [NotLoaded, NotLoaded, NotLoaded], [], False)"
  by (simp add: shutdown_defs unload_defs example_defs operation_defs cong: if_cong)

subsection \<open>A hook that fails when the dependencies are in place\<close>

lemma initializeDependencies_ready:
  "\<forall>d \<in> set deps. isPluginLoaded s d \<and> (m_pluginStates s d = Initialized \<or> m_pluginStates s d = Active) \<Longrightarrow>
   initializeDependencies n env i deps s = Some (True, s)"
  by (induction deps) auto

lemma activateDependencies_ready:
  "\<forall>d \<in> set deps. m_pluginStates s d = Active \<Longrightarrow> activateDependencies n env deps s = Some (True, s)"
  by (induction deps) auto

lemma activeDependents_none:
  "\<forall>k \<in> set ks. k \<noteq> i \<and> m_pluginStates s k = Active \<longrightarrow>
      (\<exists>md. map_of (m_pluginMetadata s) k = Some md \<and> \<not> dependsOn md i) \<Longrightarrow>
   activeDependents i ks s = ([], s)"
proof (induction ks)
  case Nil
  show ?case by simp
next
  case (Cons k ks)
  then have rest: "activeDependents i ks s = ([], s)" by simp
  show ?case
  proof (cases "k \<noteq> i \<and> m_pluginStates s k = Active")
    case True
    with Cons.prems obtain md where "map_of (m_pluginMetadata s) k = Some md" "\<not> dependsOn md i"
      by auto
    with True rest show ?thesis by (simp add: metadataRef_def)
  next
    case False
    with rest show ?thesis by auto
  qed
qed

lemma failure_text:
  "initializeFailure out = initializeFailureText out"
  "activateFailure out = activateFailureText out"
  by (cases out rule: initializeFailure.cases; simp)+

lemma initializePlugin_hook_fails:
  assumes "m_initialized s" "map_of (m_plugins s) i = Some plugin" "m_pluginStates s i = Loaded"
    and "map_of (m_pluginMetadata s) i = Some md"
    and "\<forall>d \<in> set (getPluginDependencies md).
           isPluginLoaded s d \<and> (m_pluginStates s d = Initialized \<or> m_pluginStates s d = Active)"
    and "hooks env (trace s) plugin Initialize = out" "out \<noteq> Returns True"
  shows "initializePlugin (Suc n) env i s =
     Some (False, s\<lparr> m_pluginStates := (m_pluginStates s)(i := Failed),
                      trace := trace s @ [HookCall i Initialize out (m_pluginStates s),
                                 Emit (pluginFailed i (initializeFailure out))] \<rparr>)"
proof -
  from assms(1,2) have l: "isPluginLoaded s i" by (simp add: isPluginLoaded_def qmap_contains_def)
  from assms(4) have m: "metadataRef i s = (md, s)" by (simp add: metadataRef_def)
  from assms(2,6,7) have h: "initializeHook env i s =
     Some (False, s\<lparr> m_pluginStates := (m_pluginStates s)(i := Failed),
                      trace := trace s @ [HookCall i Initialize out (m_pluginStates s),
                                 Emit (pluginFailed i (initializeFailure out))] \<rparr>)"
    by (simp add: initializeHook_def invokeHook_def failPlugin_def setState_def emit_def)
  from assms(1,3) l m initializeDependencies_ready [OF assms(5)] h show ?thesis by simp
qed

lemma activatePlugin_hook_fails:
  assumes "m_initialized s" "map_of (m_plugins s) i = Some plugin" "m_pluginStates s i = Initialized"
    and "map_of (m_pluginMetadata s) i = Some md"
    and "\<forall>d \<in> set (getPluginDependencies md). m_pluginStates s d = Active"
    and "hooks env (trace s) plugin Activate = out" "out \<noteq> Returns True"
  shows "activatePlugin (Suc n) env i s =
     Some (False, s\<lparr> m_pluginStates := (m_pluginStates s)(i := Failed),
                      trace := trace s @ [HookCall i Activate out (m_pluginStates s),
                                 Emit (pluginFailed i (activateFailure out))] \<rparr>)"
proof -
  from assms(1,2) have l: "isPluginLoaded s i" by (simp add: isPluginLoaded_def qmap_contains_def)
  from assms(4) have m: "metadataRef i s = (md, s)" by (simp add: metadataRef_def)
  from assms(2,6,7) have h: "activateHook env i s =
     Some (False, s\<lparr> m_pluginStates := (m_pluginStates s)(i := Failed),
                      trace := trace s @ [HookCall i Activate out (m_pluginStates s),
                                 Emit (pluginFailed i (activateFailure out))] \<rparr>)"
    by (simp add: activateHook_def invokeHook_def failPlugin_def setState_def emit_def)
  from assms(1,3) l m activateDependencies_ready [OF assms(5)] h show ?thesis by simp
qed

lemma deactivatePlugin_hook_fails:
  assumes "m_initialized s" "map_of (m_plugins s) i = Some plugin" "m_pluginStates s i = Active"
    and "\<forall>k \<in> set (qmap_keys (m_plugins s)). k \<noteq> i \<and> m_pluginStates s k = Active \<longrightarrow>
           (\<exists>md. map_of (m_pluginMetadata s) k = Some md \<and> \<not> dependsOn md i)"
    and "hooks env (trace s) plugin Deactivate = out" "out \<noteq> Returns True"
  shows "deactivatePlugin (Suc n) env i s =
     Some (False, s\<lparr> trace := trace s @ [HookCall i Deactivate out (m_pluginStates s)] \<rparr>)"
proof -
  from assms(1,2) have l: "isPluginLoaded s i" by (simp add: isPluginLoaded_def qmap_contains_def)
  from assms(2,5,6) have h: "deactivateHook env i s =
     Some (False, s\<lparr> trace := trace s @ [HookCall i Deactivate out (m_pluginStates s)] \<rparr>)"
    by (simp add: deactivateHook_def invokeHook_def)
  from assms(1,3) l activeDependents_none [OF assms(4)] h show ?thesis by simp
qed

subsection \<open>The registry during a deactivation, and the plugins that depend on a plugin\<close>

lemma dependenciesOf_metadataRef [simp]:
  "dependenciesOf (m_pluginMetadata (snd (metadataRef k s))) = dependenciesOf (m_pluginMetadata s)"
  by (auto simp: metadataRef_def dependenciesOf_def fun_eq_iff getPluginDependencies_def
      PluginMetadata_default_def json_value_def split: option.splits)

lemma dependenciesOf_activeDependents [simp]:
  "dependenciesOf (m_pluginMetadata (snd (activeDependents i ks s))) = dependenciesOf (m_pluginMetadata s)"
proof (induction ks arbitrary: s)
  case Nil
  show ?case by simp
next
  case (Cons k ks)
  show ?case
    using Cons [of s] Cons [of "snd (metadataRef k s)"]
    by (simp add: case_prod_beta Let_def)
qed

lemma deactivateHook_registry:
  "deactivateHook env i s = Some (r, s') \<Longrightarrow> m_pluginMetadata s' = m_pluginMetadata s"
  by (erule deactivateHook_cases) simp

lemma deactivateDependents_dependencies:
  assumes IH: "\<And>i s r s'. deactivatePlugin n env i s = Some (r, s') \<Longrightarrow>
                 dependenciesOf (m_pluginMetadata s') = dependenciesOf (m_pluginMetadata s)"
  shows "deactivateDependents n env ds s = Some (r, s') \<Longrightarrow>
         dependenciesOf (m_pluginMetadata s') = dependenciesOf (m_pluginMetadata s)"
proof (induction ds arbitrary: s)
  case Nil
  then show ?case by simp
next
  case (Cons d ds)
  from Cons.prems show ?case
  proof (cases rule: deactivateDependents_cases)
    case failed
    then show ?thesis using IH by blast
  next
    case (ok s1)
    with IH [OF ok(1)] Cons.IH [OF ok(2)] show ?thesis by simp
  qed
qed

lemma deactivatePlugin_dependencies:
  "deactivatePlugin n env i s = Some (r, s') \<Longrightarrow>
   dependenciesOf (m_pluginMetadata s') = dependenciesOf (m_pluginMetadata s)"
proof (induction n arbitrary: i s r s')
  case 0
  then show ?case by simp
next
  case (Suc n)
  note loop = deactivateDependents_dependencies [of n env, OF Suc.IH]
  from Suc.prems show ?case
  proof (cases rule: deactivatePlugin_cases)
    case early
    then show ?thesis by simp
  next
    case (failed k)
    then have "k = n" by simp
    with failed(5) loop show ?thesis by fastforce
  next
    case (hook k s1)
    then have "k = n" by simp
    with hook(5) loop have "dependenciesOf (m_pluginMetadata s1) = dependenciesOf (m_pluginMetadata s)"
      by fastforce
    with deactivateHook_registry [OF hook(6)] show ?thesis by simp
  qed
qed

lemma dependencyRelation_cong:
  "dependenciesOf registry' = dependenciesOf registry \<Longrightarrow>
   dependencyRelation registry' = dependencyRelation registry"
  by (simp add: dependencyRelation_def)

text \<open>The plugins that depend on \<open>i\<close>, directly or through others, all have a registry entry.\<close>

lemma dependents_registered:
  assumes "(p, i) \<in> (dependencyRelation registry)\<^sup>+"
  shows "p \<in> set (map fst registry)"
proof -
  from assms obtain d where "(p, d) \<in> dependencyRelation registry"
    by (meson tranclD)
  then have "dependenciesOf registry p \<noteq> []" by (auto simp: dependencyRelation_def)
  then obtain md where "map_of registry p = Some md"
    by (auto simp: dependenciesOf_def split: option.splits)
  then show ?thesis by (metis map_of_SomeD fst_conv image_eqI set_map)
qed

lemma dependents_finite: "finite {p. (p, i) \<in> (dependencyRelation registry)\<^sup>+}"
  by (rule finite_subset [of _ "set (map fst registry)"]) (auto dest: dependents_registered)

lemma dependents_card: "card {p. (p, i) \<in> (dependencyRelation registry)\<^sup>+} \<le> length registry"
proof -
  have "card {p. (p, i) \<in> (dependencyRelation registry)\<^sup>+} \<le> card (set (map fst registry))"
    by (rule card_mono) (auto dest: dependents_registered)
  also have "\<dots> \<le> length registry" using card_length [of "map fst registry"] by simp
  finally show ?thesis .
qed

lemma dependents_decrease:
  assumes "acyclic (dependencyRelation registry)" "(d, i) \<in> dependencyRelation registry"
  shows "card {p. (p, d) \<in> (dependencyRelation registry)\<^sup>+}
         < card {p. (p, i) \<in> (dependencyRelation registry)\<^sup>+}"
proof (rule psubset_card_mono [OF dependents_finite])
  from assms(1) have "(d, d) \<notin> (dependencyRelation registry)\<^sup>+" by (simp add: acyclic_def)
  moreover from assms(2) have "(d, i) \<in> (dependencyRelation registry)\<^sup>+" by auto
  moreover have "(p, i) \<in> (dependencyRelation registry)\<^sup>+"
    if "(p, d) \<in> (dependencyRelation registry)\<^sup>+" for p
    using that assms(2) by (rule trancl_into_trancl)
  ultimately show "{p. (p, d) \<in> (dependencyRelation registry)\<^sup>+}
                   \<subset> {p. (p, i) \<in> (dependencyRelation registry)\<^sup>+}" by blast
qed

subsection \<open>A deactivation whose hooks succeed\<close>

lemma deactivationReady_step:
  assumes "deactivationReady env s i" "m_initialized t" "wellFormed t" "m_plugins t = m_plugins s"
    and "dependenciesOf (m_pluginMetadata t) = dependenciesOf (m_pluginMetadata s)"
    and "d = i \<or> (d, i) \<in> (dependencyRelation (m_pluginMetadata s))\<^sup>+"
  shows "deactivationReady env t d"
proof -
  have R: "dependencyRelation (m_pluginMetadata t) = dependencyRelation (m_pluginMetadata s)"
    using assms(5) by (rule dependencyRelation_cong)
  have "p = i \<or> (p, i) \<in> (dependencyRelation (m_pluginMetadata s))\<^sup>+"
    if "p = d \<or> (p, d) \<in> (dependencyRelation (m_pluginMetadata s))\<^sup>+" for p
    using that assms(6) by (auto intro: trancl_trans)
  then have h: "hooks env history plugin Deactivate = Returns True"
    if "p = d \<or> (p, d) \<in> (dependencyRelation (m_pluginMetadata s))\<^sup>+"
      "map_of (m_plugins s) p = Some plugin" for p plugin history
    using that assms(1) unfolding deactivationReady_def by blast
  from assms(1) have "acyclic (dependencyRelation (m_pluginMetadata s))"
    by (simp add: deactivationReady_def)
  with assms(2-4) R h show ?thesis unfolding deactivationReady_def by auto
qed

lemma deactivation_wellFormed:
  assumes "deactivation s r s'" "wellFormed s"
  shows "wellFormed s'"
proof -
  from assms(1) have p: "m_plugins s' = m_plugins s"
    and st: "\<forall>k. m_pluginStates s' k = m_pluginStates s k \<or>
           (m_pluginStates s k = Active \<and> m_pluginStates s' k = Initialized)"
    by (simp_all add: deactivation_def steady_def)
  show ?thesis unfolding wellFormed_def
  proof (intro allI impI)
    fix k
    assume "m_pluginStates s' k = Active"
    with st have "m_pluginStates s k = Active" by (metis PluginState.distinct(23))
    with assms(2) p show "map_of (m_plugins s') k \<noteq> None" by (simp add: wellFormed_def)
  qed
qed

lemma deactivateDependents_succeeds:
  assumes IH: "\<And>i s. deactivationReady env s i \<Longrightarrow> isPluginLoaded s i \<Longrightarrow>
                 card {p. (p, i) \<in> (dependencyRelation (m_pluginMetadata s))\<^sup>+} < n \<Longrightarrow>
                 \<exists>s'. deactivatePlugin n env i s = Some (True, s')"
    and ready: "deactivationReady env s i"
    and fuel: "card {p. (p, i) \<in> (dependencyRelation (m_pluginMetadata s))\<^sup>+} \<le> n"
  shows "m_initialized t \<Longrightarrow> wellFormed t \<Longrightarrow> m_plugins t = m_plugins s \<Longrightarrow>
         dependenciesOf (m_pluginMetadata t) = dependenciesOf (m_pluginMetadata s) \<Longrightarrow>
         \<forall>d \<in> set ds. d \<in> set (qmap_keys (m_plugins s)) \<and> (d, i) \<in> dependencyRelation (m_pluginMetadata s) \<Longrightarrow>
         \<exists>t'. deactivateDependents n env ds t = Some (True, t') \<and> m_initialized t' \<and> wellFormed t' \<and>
               m_plugins t' = m_plugins s \<and>
               dependenciesOf (m_pluginMetadata t') = dependenciesOf (m_pluginMetadata s)"
proof (induction ds arbitrary: t)
  case Nil
  then show ?case by simp
next
  case (Cons d ds)
  let ?R = "dependencyRelation (m_pluginMetadata s)"
  from Cons.prems(5) have dk: "d \<in> set (qmap_keys (m_plugins s))" and di: "(d, i) \<in> ?R" by simp_all
  from ready have acyc: "acyclic ?R" by (simp add: deactivationReady_def)
  have Rt: "dependencyRelation (m_pluginMetadata t) = ?R"
    using Cons.prems(4) by (rule dependencyRelation_cong)
  from di have "d = i \<or> (d, i) \<in> ?R\<^sup>+" by auto
  from deactivationReady_step [OF ready Cons.prems(1-4) this] have rd: "deactivationReady env t d" .
  from dk Cons.prems(1,3) have ld: "isPluginLoaded t d"
    by (auto simp: isPluginLoaded_def qmap_contains_def qmap_keys_def map_of_eq_None_iff)
  from dependents_decrease [OF acyc di] fuel Rt
  have "card {p. (p, d) \<in> (dependencyRelation (m_pluginMetadata t))\<^sup>+} < n" by simp
  from IH [OF rd ld this] obtain t1 where d1: "deactivatePlugin n env d t = Some (True, t1)" by blast
  from deactivatePlugin_deactivation [OF d1] have dd: "deactivation t True t1" .
  then have "steady t t1" by (simp add: deactivation_def)
  with Cons.prems(1,3) have i1: "m_initialized t1" and p1: "m_plugins t1 = m_plugins s"
    by (simp_all add: steady_def grows_def)
  from deactivation_wellFormed [OF dd Cons.prems(2)] have w1: "wellFormed t1" .
  from deactivatePlugin_dependencies [OF d1] Cons.prems(4)
  have m1: "dependenciesOf (m_pluginMetadata t1) = dependenciesOf (m_pluginMetadata s)" by simp
  from Cons.prems(5) have "\<forall>d \<in> set ds. d \<in> set (qmap_keys (m_plugins s)) \<and> (d, i) \<in> ?R" by simp
  from Cons.IH [OF i1 w1 p1 m1 this] d1 show ?case by simp
qed

lemma deactivatePlugin_succeeds:
  "deactivationReady env s i \<Longrightarrow> isPluginLoaded s i \<Longrightarrow>
   card {p. (p, i) \<in> (dependencyRelation (m_pluginMetadata s))\<^sup>+} < n \<Longrightarrow>
   \<exists>s'. deactivatePlugin n env i s = Some (True, s')"
proof (induction n arbitrary: i s)
  case 0
  then show ?case by simp
next
  case (Suc n)
  let ?R = "dependencyRelation (m_pluginMetadata s)"
  from Suc.prems(1) have ini: "m_initialized s" and wf: "wellFormed s"
    by (simp_all add: deactivationReady_def)
  show ?case
  proof (cases "m_pluginStates s i = Active")
    case False
    with ini Suc.prems(2) show ?thesis by simp
  next
    case True
    let ?a = "activeDependents i (qmap_keys (m_plugins s)) s"
    have s0: "m_initialized (snd ?a)" "wellFormed (snd ?a)" "m_plugins (snd ?a) = m_plugins s"
      "dependenciesOf (m_pluginMetadata (snd ?a)) = dependenciesOf (m_pluginMetadata s)"
      using ini wf by (simp_all add: wellFormed_def)
    have ds: "\<forall>d \<in> set (fst ?a). d \<in> set (qmap_keys (m_plugins s)) \<and> (d, i) \<in> ?R"
    proof
      fix d
      assume "d \<in> set (fst ?a)"
      from activeDependents_sound [OF this] obtain md where "d \<in> set (qmap_keys (m_plugins s))"
        and "map_of (m_pluginMetadata (snd ?a)) d = Some md" and "dependsOn md i" by blast
      then have k: "d \<in> set (qmap_keys (m_plugins s))"
        and "dependenciesOf (m_pluginMetadata (snd ?a)) d = getPluginDependencies md"
        and "i \<in> set (getPluginDependencies md)"
        unfolding dependenciesOf_def dependsOn_def by simp_all
      then have "i \<in> set (dependenciesOf (m_pluginMetadata s) d)" by simp
      with k show "d \<in> set (qmap_keys (m_plugins s)) \<and> (d, i) \<in> ?R"
        by (simp add: dependencyRelation_def)
    qed
    from Suc.prems(3) have fuel: "card {p. (p, i) \<in> ?R\<^sup>+} \<le> n" by simp
    from deactivateDependents_succeeds [of env n s i "snd ?a" "fst ?a", OF Suc.IH Suc.prems(1) fuel s0 ds]
    obtain s1 where l: "deactivateDependents n env (fst ?a) (snd ?a) = Some (True, s1)"
      and p1: "m_plugins s1 = m_plugins s" by blast
    from Suc.prems(2) obtain plugin where pl: "map_of (m_plugins s) i = Some plugin"
      by (auto simp: isPluginLoaded_def qmap_contains_def split: if_splits)
    with Suc.prems(1) have "hooks env (trace s1) plugin Deactivate = Returns True"
      unfolding deactivationReady_def by blast
    with pl p1 have "\<exists>s'. deactivateHook env i s1 = Some (True, s')"
      by (simp add: deactivateHook_def invokeHook_def Let_def)
    with l ini Suc.prems(2) True show ?thesis by (auto simp: case_prod_beta)
  qed
qed

subsection \<open>The state after a successful deactivation\<close>

lemma deactivatePlugin_success_state:
  assumes d: "deactivatePlugin m env i s1 = Some (True, s2)"
    and act: "m_pluginStates s1 i = Active" and ini: "m_initialized s1"
    and lo: "map_of (m_plugins s1) i \<noteq> None"
  shows "m_pluginStates s2 i = Initialized \<and> getPluginState s2 i = Initialized \<and>
         (\<exists>snapshot. HookCall i Deactivate (Returns True) snapshot \<in> set (newEvents s1 s2))"
  using d
proof (cases rule: deactivatePlugin_cases)
  case early
  with act ini lo show ?thesis by (simp add: isPluginLoaded_def qmap_contains_def)
next
  case (failed k)
  then show ?thesis by simp
next
  case (hook k s')
  from hook(6) obtain plugin where
    r: "hooks env (trace s') plugin Deactivate = Returns True"
    and s2: "s2 = s'\<lparr> m_pluginStates := (m_pluginStates s')(i := Initialized),
           trace := trace s' @ [HookCall i Deactivate (Returns True) (m_pluginStates s'),
                      Emit (pluginDeactivated i)] \<rparr>"
    by (auto elim!: deactivateHook_cases)
  have st: "steady s1 s2" using d by (rule deactivatePlugin_steady)
  then have "m_initialized s2" using ini by (simp add: steady_def grows_def)
  moreover from s2 have "m_pluginStates s2 i = Initialized" by simp
  moreover have "HookCall i Deactivate (Returns True) (m_pluginStates s') \<in> set (newEvents s1 s2)"
  proof -
    have "steady (snd (activeDependents i (qmap_keys (m_plugins s1)) s1)) s'"
      using deactivateDependents_steady [OF _ hook(5)] deactivatePlugin_steady by blast
    with activeDependents_steady have a: "steady s1 s'" by (rule steady_trans)
    have b: "steady s' s2" using hook(6) by (rule deactivateHook_steady)
    have "newEvents s' s2 = [HookCall i Deactivate (Returns True) (m_pluginStates s'),
                      Emit (pluginDeactivated i)]"
      unfolding s2 by (simp add: newEvents_def)
    with steady_newEvents [OF a b] show ?thesis by simp
  qed
  ultimately show ?thesis by (auto simp: getPluginState_def)
qed

lemma exampleRegistry_acyclic: "acyclic (dependencyRelation exampleRegistry)"
proof -
  let ?rank = "\<lambda>p. if p = ''A'' then 0 else if p = ''B'' then 1 else (2::nat)"
  have "(dependencyRelation exampleRegistry)\<inverse> \<subseteq> measure ?rank"
    by (auto simp: dependencyRelation_def dependenciesOf_def exampleRegistry_def descriptor_def
        getPluginDependencies_def json_value_def split: if_splits)
  then have "wf ((dependencyRelation exampleRegistry)\<inverse>)" by (rule wf_subset [OF wf_measure])
  then have "acyclic ((dependencyRelation exampleRegistry)\<inverse>)" by (rule wf_acyclic)
  then show ?thesis by simp
qed

section \<open>Claims\<close>

subsection \<open>C1: dependencies are activated first\<close>



subsection \<open>C2: shutdown in reverse dependency order\<close>

text \<open>
  C2. The ordering is as claimed: on an acyclic registry the dependency sort puts every id
  after its declared dependencies, \<open>shutdown\<close> loops over the exact reverse, a chain is taken
  as \<open>C\<close>, \<open>B\<close>, \<open>A\<close>, and the loop goes on after a deactivation or an unload that reports
  failure by its result (lemmas \<open>sortPluginsByDependency_dependenciesFirst\<close>,
  \<open>shutdown_reverse_dependency_order\<close>, \<open>chain_order\<close>, \<open>shutdownLoop_continues\<close>). The loop
  does not go on past every failure, though: \<open>unloadPlugin\<close> calls the shutdown hook outside
  any \<open>try\<close> block, unlike the three other hooks, so a shutdown hook that throws ends
  \<open>shutdown\<close> on the spot. On the chain \<open>A\<close>, \<open>B\<close>, \<open>C\<close>, all active, with shutdown hooks that
  throw: \<open>C\<close> is deactivated, its shutdown hook is called, and the exception leaves
  \<open>shutdown\<close>; no hook of \<open>B\<close> or \<open>A\<close> has run, both are still \<open>Active\<close>, all three plugins are
  still registered and the manager is still initialized.
\<close>

theorem shutdown_aborted_by_throwing_hook:
  "map_option (\<lambda>(exc, s'). (exc, hookCalls (trace s'), map (m_pluginStates s') [''A'', ''B'', ''C''],
        map fst (m_plugins s'), m_initialized s'))
     (shutdown 5 (exampleEnvironment (\<lambda>history plugin h.
          if h = Shutdown then Throws (StdException ''boom'') else Returns True))
        (loadedManager (\<lambda>k. if k \<in> {''A'', ''B'', ''C''} then Active else NotLoaded) Map.empty))
   = Some (Some (StdException ''boom''), [(''C'', Deactivate), (''C'', Shutdown)],
       [Active, Active, Initialized], [''A'', ''B'', ''C''], True)"
  by (simp add: shutdown_defs unload_defs example_defs operation_defs cong: if_cong)

subsection \<open>C3: unloading is blocked by registered dependents\<close>

text \<open>
  C3. When the registry holds metadata of another plugin \<open>B\<close> that declares a dependency on
  a loaded plugin \<open>A\<close>, \<open>unloadPlugin A\<close> returns failure and leaves the whole manager as it
  was, so \<open>A\<close> keeps its state, loader and instance. Nothing is asked of \<open>B\<close> beyond its
  registry entry: it need not be loaded or active.
\<close>

theorem unload_blocked_by_dependents:
  assumes "m_initialized s" and "isPluginLoaded s A"
    and "map_of (m_pluginMetadata s) B = Some md" and "A \<in> set (getPluginDependencies md)"
    and "B \<noteq> A"
  shows "unloadPlugin n env A s = Some (Inr False, s) \<and> B \<in> set (getDependentPlugins s A)"
proof -
  from assms(3) have "(B, md) \<in> set (m_pluginMetadata s)" by (rule map_of_SomeD)
  with assms(4,5) have "B \<in> set (getDependentPlugins s A)"
    by (force simp: getDependentPlugins_def dependsOn_def)
  moreover from this have "getDependentPlugins s A \<noteq> []" by auto
  ultimately show ?thesis using assms(1,2) by (simp add: unloadPlugin_def)
qed

text \<open>
  Witness for C3: in the example installation \<open>A\<close> is loaded and \<open>B\<close>, which depends on it,
  is registered but not loaded.
\<close>

theorem unload_blocked_by_dependents_witness:
  "m_initialized (registeredManager
        \<lparr> m_pluginLoaders := [''A'' \<mapsto> ''libA.so''], m_plugins := [(''A'', 1)],
          m_pluginStates := (\<lambda>k. NotLoaded)(''A'' := Loaded) \<rparr>) \<and>
   isPluginLoaded (registeredManager
        \<lparr> m_pluginLoaders := [''A'' \<mapsto> ''libA.so''], m_plugins := [(''A'', 1)],
          m_pluginStates := (\<lambda>k. NotLoaded)(''A'' := Loaded) \<rparr>) ''A'' \<and>
   \<not> isPluginLoaded (registeredManager
        \<lparr> m_pluginLoaders := [''A'' \<mapsto> ''libA.so''], m_plugins := [(''A'', 1)],
          m_pluginStates := (\<lambda>k. NotLoaded)(''A'' := Loaded) \<rparr>) ''B'' \<and>
   ''A'' \<in> set (getPluginDependencies \<lparr> m_metadata = descriptor ''B'' [''A''] ''1.0.0'', m_isValid = True \<rparr>) \<and>
   unloadPlugin 0 (exampleEnvironment (\<lambda>history plugin h. Returns True)) ''A''
     (registeredManager
        \<lparr> m_pluginLoaders := [''A'' \<mapsto> ''libA.so''], m_plugins := [(''A'', 1)],
          m_pluginStates := (\<lambda>k. NotLoaded)(''A'' := Loaded) \<rparr>)
   = Some (Inr False, registeredManager
        \<lparr> m_pluginLoaders := [''A'' \<mapsto> ''libA.so''], m_plugins := [(''A'', 1)],
          m_pluginStates := (\<lambda>k. NotLoaded)(''A'' := Loaded) \<rparr>)"
proof -
  let ?s = "registeredManager
        \<lparr> m_pluginLoaders := [''A'' \<mapsto> ''libA.so''], m_plugins := [(''A'', 1)],
          m_pluginStates := (\<lambda>k. NotLoaded)(''A'' := Loaded) \<rparr>"
  let ?md = "\<lparr> m_metadata = descriptor ''B'' [''A''] ''1.0.0'', m_isValid = True \<rparr>"
  have i: "m_initialized ?s" by (simp add: load_defs example_defs)
  have l: "isPluginLoaded ?s ''A''" by (simp add: load_defs example_defs operation_defs)
  have nl: "\<not> isPluginLoaded ?s ''B''" by (simp add: load_defs example_defs operation_defs)
  have r: "map_of (m_pluginMetadata ?s) ''B'' = Some ?md" by (simp add: load_defs example_defs)
  have d: "''A'' \<in> set (getPluginDependencies ?md)" by (simp add: example_defs operation_defs)
  have ne: "''B'' \<noteq> ''A''" by simp
  from unload_blocked_by_dependents [OF i l r d ne, of 0 "exampleEnvironment (\<lambda>history plugin h. Returns True)"]
    i l nl d
  show ?thesis by simp
qed

subsection \<open>C4: failing hooks\<close>

text \<open>
  C4. A loaded plugin whose dependencies are in place and whose initialize hook (in state
  \<open>Loaded\<close>) or activate hook (in state \<open>Initialized\<close>) returns false or throws: the
  operation calls the hook and returns failure, the plugin is \<open>Failed\<close>, and \<open>pluginFailed\<close>
  is emitted right after the hook call with the message \<open>Failed to initialize\<close>,
  \<open>Exception during initialization:\<close> followed by the text of the exception, or
  \<open>Unknown exception during initialization\<close> (for activation: \<open>Failed to activate\<close>,
  \<open>Exception during activation:\<close>, \<open>Unknown exception during activation\<close>). An active
  plugin with no active dependent whose deactivate hook returns false or throws:
  \<open>deactivatePlugin\<close> calls the hook and returns failure with the manager as it was, the
  plugin still \<open>Active\<close>, nothing emitted. The same holds of every hook call inside a call
  that goes through dependencies or dependents and returns: a failed initialize or
  activate hook of \<open>x\<close> is followed at once by \<open>pluginFailed\<close> for \<open>x\<close> with that message, \<open>x\<close>
  ends \<open>Failed\<close> and the operation returns failure; a failed deactivate hook ends
  \<open>deactivatePlugin\<close> with failure, the states as they were at the hook call, the plugin
  still \<open>Active\<close>, no plugin newly \<open>Failed\<close> and no \<open>pluginFailed\<close> emitted.
\<close>

theorem hook_failure_outcomes:
  "(m_initialized s \<and> map_of (m_plugins s) i = Some plugin \<and> out \<noteq> Returns True \<longrightarrow>
      (m_pluginStates s i = Loaded \<and> map_of (m_pluginMetadata s) i = Some md \<and>
       (\<forall>d \<in> set (getPluginDependencies md).
          isPluginLoaded s d \<and> (m_pluginStates s d = Initialized \<or> m_pluginStates s d = Active)) \<and>
       hooks env (trace s) plugin Initialize = out \<longrightarrow>
         initializePlugin (Suc n) env i s =
           Some (False, s\<lparr> m_pluginStates := (m_pluginStates s)(i := Failed),
                   trace := trace s @ [HookCall i Initialize out (m_pluginStates s),
                              Emit (pluginFailed i (initializeFailureText out))] \<rparr>)) \<and>
      (m_pluginStates s i = Initialized \<and> map_of (m_pluginMetadata s) i = Some md \<and>
       (\<forall>d \<in> set (getPluginDependencies md). m_pluginStates s d = Active) \<and>
       hooks env (trace s) plugin Activate = out \<longrightarrow>
         activatePlugin (Suc n) env i s =
           Some (False, s\<lparr> m_pluginStates := (m_pluginStates s)(i := Failed),
                   trace := trace s @ [HookCall i Activate out (m_pluginStates s),
                              Emit (pluginFailed i (activateFailureText out))] \<rparr>)) \<and>
      (m_pluginStates s i = Active \<and>
       (\<forall>k \<in> set (qmap_keys (m_plugins s)). k \<noteq> i \<and> m_pluginStates s k = Active \<longrightarrow>
          (\<exists>md. map_of (m_pluginMetadata s) k = Some md \<and> \<not> dependsOn md i)) \<and>
       hooks env (trace s) plugin Deactivate = out \<longrightarrow>
         deactivatePlugin (Suc n) env i s =
           Some (False, s\<lparr> trace := trace s @ [HookCall i Deactivate out (m_pluginStates s)] \<rparr>))) \<and>
   (initializePlugin n env i s = Some (r, s') \<or> activatePlugin n env i s = Some (r, s') \<longrightarrow>
      newEvents s s' = pre @ HookCall x h out snapshot # post \<longrightarrow>
      (h = Initialize \<or> h = Activate) \<longrightarrow> out \<noteq> Returns True \<longrightarrow>
      \<not> r \<and> m_pluginStates s' x = Failed \<and>
      (\<exists>post'. post = Emit (pluginFailed x
         (if h = Initialize then initializeFailureText out else activateFailureText out)) # post')) \<and>
   (deactivatePlugin n env i s = Some (r, s') \<longrightarrow>
      newEvents s s' = pre @ HookCall x Deactivate out snapshot # post \<longrightarrow> out \<noteq> Returns True \<longrightarrow>
      \<not> r \<and> post = [] \<and> m_pluginStates s' = snapshot \<and> m_pluginStates s' x = Active \<and>
      (\<forall>k. m_pluginStates s' k = Failed \<longrightarrow> m_pluginStates s k = Failed) \<and>
      (\<forall>y m. Emit (pluginFailed y m) \<notin> set (newEvents s s')))"
proof (intro conjI impI)
  assume "m_initialized s \<and> map_of (m_plugins s) i = Some plugin \<and> out \<noteq> Returns True"
    and "m_pluginStates s i = Loaded \<and> map_of (m_pluginMetadata s) i = Some md \<and>
       (\<forall>d \<in> set (getPluginDependencies md).
          isPluginLoaded s d \<and> (m_pluginStates s d = Initialized \<or> m_pluginStates s d = Active)) \<and>
       hooks env (trace s) plugin Initialize = out"
  then show "initializePlugin (Suc n) env i s =
           Some (False, s\<lparr> m_pluginStates := (m_pluginStates s)(i := Failed),
                   trace := trace s @ [HookCall i Initialize out (m_pluginStates s),
                              Emit (pluginFailed i (initializeFailureText out))] \<rparr>)"
    using initializePlugin_hook_fails [of s i plugin md env out n]
    by (simp add: failure_text [symmetric])
next
  assume "m_initialized s \<and> map_of (m_plugins s) i = Some plugin \<and> out \<noteq> Returns True"
    and "m_pluginStates s i = Initialized \<and> map_of (m_pluginMetadata s) i = Some md \<and>
       (\<forall>d \<in> set (getPluginDependencies md). m_pluginStates s d = Active) \<and>
       hooks env (trace s) plugin Activate = out"
  then show "activatePlugin (Suc n) env i s =
           Some (False, s\<lparr> m_pluginStates := (m_pluginStates s)(i := Failed),
                   trace := trace s @ [HookCall i Activate out (m_pluginStates s),
                              Emit (pluginFailed i (activateFailureText out))] \<rparr>)"
    using activatePlugin_hook_fails [of s i plugin md env out n]
    by (simp add: failure_text [symmetric])
next
  assume "m_initialized s \<and> map_of (m_plugins s) i = Some plugin \<and> out \<noteq> Returns True"
    and "m_pluginStates s i = Active \<and>
       (\<forall>k \<in> set (qmap_keys (m_plugins s)). k \<noteq> i \<and> m_pluginStates s k = Active \<longrightarrow>
          (\<exists>md. map_of (m_pluginMetadata s) k = Some md \<and> \<not> dependsOn md i)) \<and>
       hooks env (trace s) plugin Deactivate = out"
  then show "deactivatePlugin (Suc n) env i s =
           Some (False, s\<lparr> trace := trace s @ [HookCall i Deactivate out (m_pluginStates s)] \<rparr>)"
    using deactivatePlugin_hook_fails [of s i plugin env out n] by blast
next
  assume c: "initializePlugin n env i s = Some (r, s') \<or> activatePlugin n env i s = Some (r, s')"
    and d: "newEvents s s' = pre @ HookCall x h out snapshot # post"
    and h: "h = Initialize \<or> h = Activate" and o: "out \<noteq> Returns True"
  from c have l: "lifecycle s r s'"
    using initializePlugin_lifecycle activatePlugin_lifecycle by blast
  from failed_hook_outcome [OF l d h o] show "\<not> r" and "m_pluginStates s' x = Failed" by simp_all
  from failed_hook_outcome [OF l d h o] obtain post' where
    "post = Emit (pluginFailed x (failureMessage h out)) # post'" by blast
  with h show "\<exists>post'. post = Emit (pluginFailed x
         (if h = Initialize then initializeFailureText out else activateFailureText out)) # post'"
    by (auto simp: failure_text)
next
  assume c: "deactivatePlugin n env i s = Some (r, s')"
    and d: "newEvents s s' = pre @ HookCall x Deactivate out snapshot # post"
    and o: "out \<noteq> Returns True"
  note f = failed_deactivation_outcome [OF deactivatePlugin_deactivation [OF c] d o]
  from f show "\<not> r" "post = []" "m_pluginStates s' = snapshot" "m_pluginStates s' x = Active"
    "\<forall>k. m_pluginStates s' k = Failed \<longrightarrow> m_pluginStates s k = Failed"
    "\<forall>y m. Emit (pluginFailed y m) \<notin> set (newEvents s s')" by blast+
qed


text \<open>
  Witness for C4 on the example installation: the initialize hook of the loaded \<open>A\<close> throws
  a \<open>PluginException\<close>; the activate hook of the initialized \<open>B\<close>, whose dependency \<open>A\<close> is
  active, returns false; the activate hook of \<open>A\<close> returns false inside \<open>activatePlugin B\<close>;
  the deactivate hook of the active \<open>A\<close> throws.
\<close>

theorem hook_failure_outcomes_witness:
  "initializePlugin (Suc 0)
     (exampleEnvironment (\<lambda>history plugin h. if h = Initialize then Throws (PluginException ''boom'') else Returns True))
     ''A'' (loadedManager (\<lambda>k. Loaded) Map.empty)
   = Some (False,
       (loadedManager (\<lambda>k. Loaded) Map.empty)
         \<lparr> m_pluginStates := (\<lambda>k. Loaded)(''A'' := Failed),
           trace := [HookCall ''A'' Initialize (Throws (PluginException ''boom'')) (\<lambda>k. Loaded),
                     Emit (pluginFailed ''A'' ''Exception during initialization: boom'')] \<rparr>) \<and>
   activatePlugin (Suc 0)
     (exampleEnvironment (\<lambda>history plugin h. if h = Activate then Returns False else Returns True))
     ''B'' (loadedManager (\<lambda>k. if k = ''A'' then Active else Initialized) Map.empty)
   = Some (False,
       (loadedManager (\<lambda>k. if k = ''A'' then Active else Initialized) Map.empty)
         \<lparr> m_pluginStates := (\<lambda>k. if k = ''A'' then Active else Initialized)(''B'' := Failed),
           trace := [HookCall ''B'' Activate (Returns False) (\<lambda>k. if k = ''A'' then Active else Initialized),
                     Emit (pluginFailed ''B'' ''Failed to activate'')] \<rparr>) \<and>
   activatePlugin (Suc (Suc 0))
     (exampleEnvironment (\<lambda>history plugin h. if h = Activate then Returns False else Returns True))
     ''B'' (loadedManager (\<lambda>k. Initialized) Map.empty)
   = Some (False,
       (loadedManager (\<lambda>k. Initialized) Map.empty)
         \<lparr> m_pluginStates := (\<lambda>k. Initialized)(''A'' := Failed),
           trace := [HookCall ''A'' Activate (Returns False) (\<lambda>k. Initialized),
                     Emit (pluginFailed ''A'' ''Failed to activate'')] \<rparr>) \<and>
   deactivatePlugin (Suc 0)
     (exampleEnvironment (\<lambda>history plugin h. if h = Deactivate then Throws UnknownException else Returns True))
     ''A'' (loadedManager (\<lambda>k. if k = ''A'' then Active else Loaded) Map.empty)
   = Some (False,
       (loadedManager (\<lambda>k. if k = ''A'' then Active else Loaded) Map.empty)
         \<lparr> trace := [HookCall ''A'' Deactivate (Throws UnknownException)
                              (\<lambda>k. if k = ''A'' then Active else Loaded)] \<rparr>)"
proof -
  let ?envI = "exampleEnvironment (\<lambda>history plugin h. if h = Initialize then Throws (PluginException ''boom'') else Returns True)"
  let ?envA = "exampleEnvironment (\<lambda>history plugin h. if h = Activate then Returns False else Returns True)"
  let ?envD = "exampleEnvironment (\<lambda>history plugin h. if h = Deactivate then Throws UnknownException else Returns True)"
  let ?sI = "loadedManager (\<lambda>k. Loaded) Map.empty"
  let ?sA = "loadedManager (\<lambda>k. if k = ''A'' then Active else Initialized) Map.empty"
  let ?sN = "loadedManager (\<lambda>k. Initialized) Map.empty"
  let ?sD = "loadedManager (\<lambda>k. if k = ''A'' then Active else Loaded) Map.empty"
  let ?mdA = "\<lparr> m_metadata = descriptor ''A'' [] ''1.0.0'', m_isValid = True \<rparr>"
  let ?mdB = "\<lparr> m_metadata = descriptor ''B'' [''A''] ''1.0.0'', m_isValid = True \<rparr>"
  let ?eN = "HookCall ''A'' Activate (Returns False) (\<lambda>k. Initialized)"
  let ?sN' = "?sN\<lparr> m_pluginStates := (\<lambda>k. Initialized)(''A'' := Failed),
           trace := [?eN, Emit (pluginFailed ''A'' ''Failed to activate'')] \<rparr>"
  have runN: "activatePlugin (Suc (Suc 0)) ?envA ''B'' ?sN = Some (False, ?sN')"
    by (simp add: example_defs operation_defs)
  have evN: "newEvents ?sN ?sN' = [] @ ?eN # [Emit (pluginFailed ''A'' ''Failed to activate'')]"
    by (simp add: example_defs operation_defs)
  from hook_failure_outcomes [where s = ?sI and i = "''A''" and plugin = 1 and md = ?mdA
      and out = "Throws (PluginException ''boom'')" and env = ?envI and n = 0]
    hook_failure_outcomes [where s = ?sA and i = "''B''" and plugin = 2 and md = ?mdB
      and out = "Returns False" and env = ?envA and n = 0]
    hook_failure_outcomes [where s = ?sD and i = "''A''" and plugin = 1
      and out = "Throws UnknownException" and env = ?envD and n = 0]
    hook_failure_outcomes [where s = ?sN and i = "''B''" and env = ?envA and n = "Suc (Suc 0)"
      and r = False and s' = ?sN' and pre = "[]" and x = "''A''" and h = Activate
      and out = "Returns False" and snapshot = "\<lambda>k. Initialized"
      and post = "[Emit (pluginFailed ''A'' ''Failed to activate'')]"]
    runN evN
  show ?thesis by (simp add: example_defs operation_defs)
qed

subsection \<open>C5: incompatible framework version\<close>

text \<open>
  C5, as amended. For a registered plugin \<open>X\<close> that is not loaded and whose
  \<open>minFrameworkVersion\<close> exceeds the framework version, \<open>loadPlugin X\<close> fails, emits
  \<open>pluginFailed\<close> with the message \<open>Incompatible with framework version 1.0.0\<close> and sets the
  state of \<open>X\<close> to \<open>Failed\<close>. \<open>activatePlugin X\<close> fails as well, before and after that load,
  because \<open>X\<close> is not loaded, and changes nothing.
\<close>

theorem incompatible_plugin_fails_at_load:
  assumes "m_initialized s" and "\<not> isPluginLoaded s X"
    and "map_of (m_pluginMetadata s) X = Some md" and "isValid md"
    and "compare (fromString m_frameworkVersion) (getMinFrameworkVersionNumber md) < 0"
  shows "loadPlugin env X s = (False, failPlugin X ''Incompatible with framework version 1.0.0'' s) \<and>
         m_pluginStates (snd (loadPlugin env X s)) X = Failed \<and>
         newEvents s (snd (loadPlugin env X s)) = [Emit (pluginFailed X ''Incompatible with framework version 1.0.0'')] \<and>
         activatePlugin (Suc n) env X s = Some (False, s) \<and>
         activatePlugin (Suc n) env X (snd (loadPlugin env X s)) = Some (False, snd (loadPlugin env X s))"
proof -
  from assms(4,5) have inc: "\<not> isCompatibleWithFramework md m_frameworkVersion"
    by (simp add: isCompatibleWithFramework_def isValid_def)
  from assms(3) have c: "qmap_contains (m_pluginMetadata s) X" by (simp add: qmap_contains_def)
  from assms(3) have m: "metadataRef X s = (md, s)" by (simp add: metadataRef_def)
  from assms(1,2) c m inc
  have l: "loadPlugin env X s = (False, failPlugin X ''Incompatible with framework version 1.0.0'' s)"
    by (simp add: loadPlugin_def m_frameworkVersion_def)
  from assms(1,2) have a: "activatePlugin (Suc n) env X s = Some (False, s)" by simp
  from assms(1,2) have "\<not> isPluginLoaded (failPlugin X ''Incompatible with framework version 1.0.0'' s) X"
    by (simp add: isPluginLoaded_def)
  then have b: "activatePlugin (Suc n) env X (failPlugin X ''Incompatible with framework version 1.0.0'' s)
      = Some (False, failPlugin X ''Incompatible with framework version 1.0.0'' s)" by simp
  from l a b show ?thesis by (simp add: newEvents_def)
qed

text \<open>Witness for C5: the example plugin \<open>X\<close> asks for framework version 99.0.0.\<close>

theorem incompatible_plugin_fails_at_load_witness:
  "m_initialized registeredManager \<and> \<not> isPluginLoaded registeredManager ''X'' \<and>
   getMinFrameworkVersion \<lparr> m_metadata = descriptor ''X'' [] ''99.0.0'', m_isValid = True \<rparr> = ''99.0.0'' \<and>
   loadPlugin (exampleEnvironment (\<lambda>history plugin h. Returns True)) ''X'' registeredManager
     = (False, failPlugin ''X'' ''Incompatible with framework version 1.0.0'' registeredManager) \<and>
   m_pluginStates (failPlugin ''X'' ''Incompatible with framework version 1.0.0'' registeredManager) ''X'' = Failed"
proof -
  let ?md = "\<lparr> m_metadata = descriptor ''X'' [] ''99.0.0'', m_isValid = True \<rparr>"
  have i: "m_initialized registeredManager" by (simp add: load_defs example_defs)
  have nl: "\<not> isPluginLoaded registeredManager ''X''" by (simp add: load_defs example_defs operation_defs)
  have r: "map_of (m_pluginMetadata registeredManager) ''X'' = Some ?md" by (simp add: load_defs example_defs)
  have v: "isValid ?md" by (simp add: isValid_def)
  have mv: "getMinFrameworkVersion ?md = ''99.0.0''"
    by (simp add: getMinFrameworkVersion_def example_defs operation_defs)
  have c: "compare (fromString m_frameworkVersion) (getMinFrameworkVersionNumber ?md) < 0"
    by (simp add: getMinFrameworkVersionNumber_def mv m_frameworkVersion_def)
  from incompatible_plugin_fails_at_load [OF i nl r v c, of "exampleEnvironment (\<lambda>history plugin h. Returns True)" 0]
    i nl mv
  show ?thesis by simp
qed

text \<open>
  Counterexample to C5 as stated: \<open>activatePlugin\<close> on the registered, incompatible \<open>X\<close>
  returns failure, but the state of \<open>X\<close> stays \<open>NotLoaded\<close> and nothing is emitted.
\<close>

theorem activate_incompatible_counterexample:
  "\<not> isCompatibleWithFramework \<lparr> m_metadata = descriptor ''X'' [] ''99.0.0'', m_isValid = True \<rparr> ''1.0.0'' \<and>
   map_of (m_pluginMetadata registeredManager) ''X''
     = Some \<lparr> m_metadata = descriptor ''X'' [] ''99.0.0'', m_isValid = True \<rparr> \<and>
   activatePlugin (Suc 0) (exampleEnvironment (\<lambda>history plugin h. Returns True)) ''X'' registeredManager
     = Some (False, registeredManager) \<and>
   m_pluginStates registeredManager ''X'' = NotLoaded \<and>
   trace registeredManager = []"
  by (simp add: load_defs example_defs operation_defs)



subsection \<open>C6: metadata validity\<close>

text \<open>
  C6, as amended. Parsing yields a valid metadata object only for a JSON object that
  contains the keys \<open>id\<close>, \<open>name\<close>, \<open>version\<close> and \<open>vendor\<close> (whatever the types of their
  values), so metadata with a required field missing is invalid; and every id that
  \<open>scanForPlugins\<close> returns, like every registry entry it writes, holds valid metadata read
  from the descriptor file of that id, whose \<open>id\<close> field equals the key.
\<close>

theorem metadata_requires_fields_present:
  "(fst (loadFromString md doc) \<or> isValid (snd (loadFromString md doc)) \<longrightarrow>
      (\<exists>obj. doc = ObjectDocument obj \<and> json_contains obj ''id'' \<and> json_contains obj ''name'' \<and>
         json_contains obj ''version'' \<and> json_contains obj ''vendor'')) \<and>
   (scanForPlugins env s = (ids, s') \<longrightarrow>
      (\<forall>p. p \<in> set ids \<or> map_of (m_pluginMetadata s') p \<noteq> map_of (m_pluginMetadata s) p \<longrightarrow>
         (\<exists>md. map_of (m_pluginMetadata s') p = Some md \<and> validFromFile env p md)))"
proof (intro conjI impI allI)
  assume "fst (loadFromString md doc) \<or> isValid (snd (loadFromString md doc))"
  from loadFromString_valid [OF this]
  show "\<exists>obj. doc = ObjectDocument obj \<and> json_contains obj ''id'' \<and> json_contains obj ''name'' \<and>
         json_contains obj ''version'' \<and> json_contains obj ''vendor''"
    by (auto simp: requiredFieldsPresent_def)
next
  fix p
  assume a: "scanForPlugins env s = (ids, s')"
    and b: "p \<in> set ids \<or> map_of (m_pluginMetadata s') p \<noteq> map_of (m_pluginMetadata s) p"
  show "\<exists>md. map_of (m_pluginMetadata s') p = Some md \<and> validFromFile env p md"
  proof (cases "m_initialized s")
    case True
    with a have "scanFiles env (entryList env) s = (ids, s')" by (simp add: scanForPlugins_def)
    from scanFiles_registry [OF this b] show ?thesis .
  next
    case False
    with a b show ?thesis by (simp add: scanForPlugins_def)
  qed
qed

text \<open>
  Witness for C6: the descriptor of the example plugin \<open>A\<close> parses as valid, and scanning the
  example installation returns \<open>A\<close> with its registry entry.
\<close>

theorem metadata_requires_fields_present_witness:
  "fst (loadFromString PluginMetadata_default (ObjectDocument (descriptor ''A'' [] ''1.0.0''))) \<and>
   json_contains (descriptor ''A'' [] ''1.0.0'') ''vendor'' \<and>
   ''A'' \<in> set (fst (scanForPlugins (exampleEnvironment (\<lambda>history plugin h. Returns True)) freshManager)) \<and>
   validFromFile (exampleEnvironment (\<lambda>history plugin h. Returns True)) ''A''
     \<lparr> m_metadata = descriptor ''A'' [] ''1.0.0'', m_isValid = True \<rparr> \<and>
   map_of (m_pluginMetadata (snd (scanForPlugins (exampleEnvironment (\<lambda>history plugin h. Returns True)) freshManager))) ''A''
     = Some \<lparr> m_metadata = descriptor ''A'' [] ''1.0.0'', m_isValid = True \<rparr>"
  using metadata_requires_fields_present
    [of PluginMetadata_default "ObjectDocument (descriptor ''A'' [] ''1.0.0'')"
        "exampleEnvironment (\<lambda>history plugin h. Returns True)" freshManager
        "fst (scanForPlugins (exampleEnvironment (\<lambda>history plugin h. Returns True)) freshManager)"
        "snd (scanForPlugins (exampleEnvironment (\<lambda>history plugin h. Returns True)) freshManager)"]
  by (simp add: scanForPlugins_def exampleEnvironment_def freshManager_def baseName_def
      loadPluginMetadata_def exampleFiles_def loadFromFile_def loadFromString_def Let_def
      requiredFieldsPresent_def json_contains_def descriptor_def untypedDescriptor_def isValid_def
      getPluginId_def json_value_def validFromFile_def)

text \<open>
  Counterexample to C6 as stated: the descriptor \<open>P\<close> has a number, a boolean and null for
  \<open>name\<close>, \<open>version\<close> and \<open>vendor\<close>; it parses as valid, and scanning enters it into the
  registry and returns its id.
\<close>

theorem untyped_metadata_counterexample:
  "isValid (snd (loadFromString PluginMetadata_default (ObjectDocument untypedDescriptor))) \<and>
   json_value untypedDescriptor ''name'' = JDouble 5 \<and>
   ''P'' \<in> set (fst (scanForPlugins (exampleEnvironment (\<lambda>history plugin h. Returns True)) freshManager)) \<and>
   qmap_contains (m_pluginMetadata (snd (scanForPlugins (exampleEnvironment (\<lambda>history plugin h. Returns True)) freshManager))) ''P''"
  by (simp add: scanForPlugins_def exampleEnvironment_def freshManager_def baseName_def
      loadPluginMetadata_def exampleFiles_def loadFromFile_def loadFromString_def Let_def
      requiredFieldsPresent_def json_contains_def descriptor_def untypedDescriptor_def isValid_def
      getPluginId_def json_value_def qmap_contains_def)

subsection \<open>C7: handlers are purged before the module is released\<close>




subsection \<open>C8: idempotence\<close>

text \<open>
  C8. When \<open>loadPlugin\<close>, \<open>initializePlugin\<close> or \<open>activatePlugin\<close> has returned success,
  calling it again at once returns success and leaves the manager exactly as it was: no
  plugin state changes, and the trace of hook calls, loader calls and signals gets no new
  entry.
\<close>

theorem repeated_call_is_noop:
  "(loadPlugin env i s = (True, s1) \<longrightarrow> loadPlugin env i s1 = (True, s1)) \<and>
   (initializePlugin n env i s = Some (True, s1) \<longrightarrow>
      initializePlugin (Suc k) env i s1 = Some (True, s1)) \<and>
   (activatePlugin n env i s = Some (True, s1) \<longrightarrow>
      activatePlugin (Suc k) env i s1 = Some (True, s1))"
proof (intro conjI impI)
  assume "loadPlugin env i s = (True, s1)"
  from loadPlugin_success [OF this] show "loadPlugin env i s1 = (True, s1)"
    by (simp add: loadPlugin_def isPluginLoaded_def qmap_contains_def)
next
  assume "initializePlugin n env i s = Some (True, s1)"
  from initializePlugin_success [OF this] show "initializePlugin (Suc k) env i s1 = Some (True, s1)"
    by (auto simp: isPluginLoaded_def qmap_contains_def)
next
  assume "activatePlugin n env i s = Some (True, s1)"
  from activatePlugin_success [OF this] show "activatePlugin (Suc k) env i s1 = Some (True, s1)"
    by (auto simp: isPluginLoaded_def qmap_contains_def)
qed

text \<open>
  Witness for C8: loading, initializing and activating the example plugin \<open>A\<close> twice.
\<close>

theorem repeated_call_is_noop_witness:
  "loadPlugin (exampleEnvironment (\<lambda>history plugin h. Returns True)) ''A'' registeredManager
   = (True, registeredManager
        \<lparr> m_pluginLoaders := [''A'' \<mapsto> ''libA.so''], m_plugins := [(''A'', 1)],
          m_pluginStates := (\<lambda>k. NotLoaded)(''A'' := Loaded),
          trace := [LoaderLoad ''libA.so'', Emit (pluginLoaded ''A'')] \<rparr>) \<and>
   loadPlugin (exampleEnvironment (\<lambda>history plugin h. Returns True)) ''A''
     (registeredManager
        \<lparr> m_pluginLoaders := [''A'' \<mapsto> ''libA.so''], m_plugins := [(''A'', 1)],
          m_pluginStates := (\<lambda>k. NotLoaded)(''A'' := Loaded),
          trace := [LoaderLoad ''libA.so'', Emit (pluginLoaded ''A'')] \<rparr>)
   = (True, registeredManager
        \<lparr> m_pluginLoaders := [''A'' \<mapsto> ''libA.so''], m_plugins := [(''A'', 1)],
          m_pluginStates := (\<lambda>k. NotLoaded)(''A'' := Loaded),
          trace := [LoaderLoad ''libA.so'', Emit (pluginLoaded ''A'')] \<rparr>) \<and>
   initializePlugin (Suc 0) (exampleEnvironment (\<lambda>history plugin h. Returns True)) ''A''
     (loadedManager (\<lambda>k. Loaded) Map.empty)
   = Some (True, (loadedManager (\<lambda>k. Loaded) Map.empty)
        \<lparr> m_pluginStates := (\<lambda>k. Loaded)(''A'' := Initialized),
          trace := [HookCall ''A'' Initialize (Returns True) (\<lambda>k. Loaded), Emit (pluginInitialized ''A'')] \<rparr>) \<and>
   initializePlugin (Suc 0) (exampleEnvironment (\<lambda>history plugin h. Returns True)) ''A''
     ((loadedManager (\<lambda>k. Loaded) Map.empty)
        \<lparr> m_pluginStates := (\<lambda>k. Loaded)(''A'' := Initialized),
          trace := [HookCall ''A'' Initialize (Returns True) (\<lambda>k. Loaded), Emit (pluginInitialized ''A'')] \<rparr>)
   = Some (True, (loadedManager (\<lambda>k. Loaded) Map.empty)
        \<lparr> m_pluginStates := (\<lambda>k. Loaded)(''A'' := Initialized),
          trace := [HookCall ''A'' Initialize (Returns True) (\<lambda>k. Loaded), Emit (pluginInitialized ''A'')] \<rparr>) \<and>
   activatePlugin (Suc 0) (exampleEnvironment (\<lambda>history plugin h. Returns True)) ''A''
     (loadedManager (\<lambda>k. Initialized) Map.empty)
   = Some (True, (loadedManager (\<lambda>k. Initialized) Map.empty)
        \<lparr> m_pluginStates := (\<lambda>k. Initialized)(''A'' := Active),
          trace := [HookCall ''A'' Activate (Returns True) (\<lambda>k. Initialized), Emit (pluginActivated ''A'')] \<rparr>) \<and>
   activatePlugin (Suc 0) (exampleEnvironment (\<lambda>history plugin h. Returns True)) ''A''
     ((loadedManager (\<lambda>k. Initialized) Map.empty)
        \<lparr> m_pluginStates := (\<lambda>k. Initialized)(''A'' := Active),
          trace := [HookCall ''A'' Activate (Returns True) (\<lambda>k. Initialized), Emit (pluginActivated ''A'')] \<rparr>)
   = Some (True, (loadedManager (\<lambda>k. Initialized) Map.empty)
        \<lparr> m_pluginStates := (\<lambda>k. Initialized)(''A'' := Active),
          trace := [HookCall ''A'' Activate (Returns True) (\<lambda>k. Initialized), Emit (pluginActivated ''A'')] \<rparr>)"
proof -
  let ?env = "exampleEnvironment (\<lambda>history plugin h. Returns True)"
  let ?l1 = "registeredManager
        \<lparr> m_pluginLoaders := [''A'' \<mapsto> ''libA.so''], m_plugins := [(''A'', 1)],
          m_pluginStates := (\<lambda>k. NotLoaded)(''A'' := Loaded),
          trace := [LoaderLoad ''libA.so'', Emit (pluginLoaded ''A'')] \<rparr>"
  let ?i0 = "loadedManager (\<lambda>k. Loaded) Map.empty"
  let ?i1 = "?i0\<lparr> m_pluginStates := (\<lambda>k. Loaded)(''A'' := Initialized),
          trace := [HookCall ''A'' Initialize (Returns True) (\<lambda>k. Loaded), Emit (pluginInitialized ''A'')] \<rparr>"
  let ?a0 = "loadedManager (\<lambda>k. Initialized) Map.empty"
  let ?a1 = "?a0\<lparr> m_pluginStates := (\<lambda>k. Initialized)(''A'' := Active),
          trace := [HookCall ''A'' Activate (Returns True) (\<lambda>k. Initialized), Emit (pluginActivated ''A'')] \<rparr>"
  have l: "loadPlugin ?env ''A'' registeredManager = (True, ?l1)"
    by (simp add: load_defs example_defs operation_defs)
  have i: "initializePlugin (Suc 0) ?env ''A'' ?i0 = Some (True, ?i1)"
    by (simp add: example_defs operation_defs)
  have a: "activatePlugin (Suc 0) ?env ''A'' ?a0 = Some (True, ?a1)"
    by (simp add: example_defs operation_defs)
  from repeated_call_is_noop [where env = ?env and i = "''A''" and s = registeredManager and ?s1.0 = ?l1]
    repeated_call_is_noop [where env = ?env and i = "''A''" and s = ?i0 and ?s1.0 = ?i1 and n = "Suc 0" and k = 0]
    repeated_call_is_noop [where env = ?env and i = "''A''" and s = ?a0 and ?s1.0 = ?a1 and n = "Suc 0" and k = 0]
    l i a
  show ?thesis by simp
qed

subsection \<open>C9: activation followed by deactivation\<close>



subsection \<open>C10: the dependency sort returns on every registry\<close>

text \<open>
  C10. \<open>sortPluginsByDependency\<close> returns for every metadata registry and every list of ids,
  whatever cycles or self-references the declared dependencies contain: a recursion depth
  of one more than the number of registry entries is enough. The ids it returns are
  exactly the visited ones, each once, and the requested ids are among them. The
  recursive \<open>initializePlugin\<close> and \<open>activatePlugin\<close> have no such guard: on a loaded plugin
  whose first declared dependency is the plugin itself they do not return, at any depth.
\<close>

theorem sort_returns_on_every_registry:
  "(\<exists>visited out.
      visitDependencies (Suc (length registry + m)) registry pluginIds ({}, []) = Some (visited, out) \<and>
      sortPluginsByDependency (Suc (length registry + m)) registry pluginIds = Some out \<and>
      distinct out \<and> set out = visited \<and> set pluginIds \<subseteq> set out) \<and>
   (m_initialized s \<and> isPluginLoaded s i \<and> m_pluginStates s i = Loaded \<and>
    dependenciesOf (m_pluginMetadata s) i = i # others \<longrightarrow>
      initializePlugin n env i s = None \<and> activatePlugin n env i s = None)"
proof (rule conjI)
  let ?n = "Suc (length registry + m)"
  have "card (set (map fst registry)) \<le> length registry"
    using card_length [of "map fst registry"] by simp
  then have "card (set (map fst registry) - fst ({}::string set, []::string list)) < ?n" by simp
  from visitDependencies_returns [OF _ this, of pluginIds] buildDependencyGraph_returns
  obtain st where r: "visitDependencies ?n registry pluginIds ({}, []) = Some st" by blast
  from visitDependencies_extends' [OF r]
  have "distinct (snd st) \<and> set (snd st) = fst st \<and> set pluginIds \<subseteq> set (snd st)"
    by (auto simp: extends_def)
  with r show "\<exists>visited out.
      visitDependencies ?n registry pluginIds ({}, []) = Some (visited, out) \<and>
      sortPluginsByDependency ?n registry pluginIds = Some out \<and>
      distinct out \<and> set out = visited \<and> set pluginIds \<subseteq> set out"
    by (cases st) (simp add: sortPluginsByDependency_def)
next
  show "m_initialized s \<and> isPluginLoaded s i \<and> m_pluginStates s i = Loaded \<and>
    dependenciesOf (m_pluginMetadata s) i = i # others \<longrightarrow>
      initializePlugin n env i s = None \<and> activatePlugin n env i s = None"
    using initializePlugin_self_dependency activatePlugin_self_dependency by blast
qed

text \<open>Witness for C10: the registry in which \<open>A\<close> names itself and \<open>B\<close>, and \<open>B\<close> names \<open>A\<close>.\<close>

theorem sort_returns_on_every_registry_witness:
  "visitDependencies 3 cyclicRegistry [''A'', ''B''] ({}, []) = Some ({''A'', ''B''}, [''B'', ''A'']) \<and>
   sortPluginsByDependency 3 cyclicRegistry [''A'', ''B''] = Some [''B'', ''A''] \<and>
   initializePlugin 5 (exampleEnvironment (\<lambda>history plugin h. Returns True)) ''A''
     ((loadedManager (\<lambda>k. Loaded) Map.empty)\<lparr> m_pluginMetadata := cyclicRegistry \<rparr>) = None \<and>
   activatePlugin 5 (exampleEnvironment (\<lambda>history plugin h. Returns True)) ''A''
     ((loadedManager (\<lambda>k. Loaded) Map.empty)\<lparr> m_pluginMetadata := cyclicRegistry \<rparr>) = None"
proof -
  let ?s = "(loadedManager (\<lambda>k. Loaded) Map.empty)\<lparr> m_pluginMetadata := cyclicRegistry \<rparr>"
  have v: "visitDependencies 3 cyclicRegistry [''A'', ''B''] ({}, []) = Some ({''A'', ''B''}, [''B'', ''A''])"
    by (simp add: cyclicRegistry_def descriptor_def operation_defs
          numeral_3_eq_3 insert_commute)
  have h: "m_initialized ?s \<and> isPluginLoaded ?s ''A'' \<and> m_pluginStates ?s ''A'' = Loaded \<and>
    dependenciesOf (m_pluginMetadata ?s) ''A'' = ''A'' # [''B'']"
    by (simp add: cyclicRegistry_def example_defs operation_defs dependenciesOf_def
         )
  from sort_returns_on_every_registry [where registry = cyclicRegistry and m = 0
      and pluginIds = "[''A'', ''B'']" and s = ?s and i = "''A''" and others = "[''B'']"
      and n = 5 and env = "exampleEnvironment (\<lambda>history plugin h. Returns True)"] v h
  show ?thesis by (simp add: cyclicRegistry_def sortPluginsByDependency_def)
qed

end
